theory Spec2Isabelle
  imports Complex_Main "HOL-Library.Multiset"
begin

section \<open>Coastal adaptation model: data\<close>

text \<open>
  The development follows \<^verbatim>\<open>AdaptationModel.py\<close>. Python floats are modelled by
  \<^typ>\<open>real\<close> (rounding is not modelled), Python ints by \<^typ>\<open>int\<close> or \<^typ>\<open>nat\<close>.
  Objects of class \<^verbatim>\<open>Household\<close> live in a store indexed by the reference of the
  object; since the constructor numbers the agents \<^verbatim>\<open>0 .. n-1\<close>, the reference of an
  agent is the natural number it was created with. Every call of the random number
  generator is an explicit argument.
\<close>

datatype error = ZeroDivisionError | ValueError | CellNotEmpty

definition py_div :: "real \<Rightarrow> real \<Rightarrow> error + real" where
  "py_div a b = (if b = 0 then Inl ZeroDivisionError else Inr (a / b))"

text \<open>The fields \<^verbatim>\<open>x\<close> and \<^verbatim>\<open>y\<close> of the source are \<open>pos_x\<close> and \<open>pos_y\<close> here.\<close>

record Household =
  unique_id :: nat
  pos_x :: int
  pos_y :: int
  connections :: "nat list"
  elevation :: real
  adaptive_capacity :: real
  resistance :: real
  accommodation :: real
  p_action :: real
  p_resist :: real
  p_accommodate :: real
  p_retreat :: real
  flood_damage :: real
  attachment :: real
  relative_elevation :: real
  inundation :: real
  retreated :: bool

text \<open>
  \<open>schedule\<close> is the list \<^verbatim>\<open>schedule.agents\<close> of the scheduler, \<open>grid\<close> the cells of
  the single-occupancy grid, \<open>agents\<close> the object store, \<open>tick\<close> the global counter.
\<close>

record Model =
  num_agents :: int
  width :: nat
  height :: nat
  slr_acceleration :: real
  init_slr_increase :: real
  network_mode :: string
  network_parameter :: real
  schedule :: "nat list"
  grid :: "int \<times> int \<Rightarrow> nat option"
  sea_level :: real
  storm_surge :: real
  community_resistance :: int
  accommodation_incentive :: int
  retreat_incentive :: int
  p_adapt :: real
  agent_list :: "nat list"
  agents :: "nat \<Rightarrow> Household"
  tick :: int

section \<open>Household\<close>

text \<open>\<^verbatim>\<open>Household.__init__\<close>; \<open>cap\<close> is the draw \<^verbatim>\<open>random.normalvariate(0, 1)\<close>.\<close>

definition Household_init :: "nat \<Rightarrow> nat \<Rightarrow> int \<Rightarrow> int \<Rightarrow> real \<Rightarrow> error + Household" where
  "Household_init i w px py cap =
     (case py_div (real_of_int px) (real w) of
        Inl e \<Rightarrow> Inl e
      | Inr q \<Rightarrow> Inr
          \<lparr>unique_id = i, pos_x = px, pos_y = py, connections = [],
           elevation = q * 10, adaptive_capacity = cap,
           resistance = 0, accommodation = 0,
           p_action = 0, p_resist = 0.6, p_accommodate = 0.3, p_retreat = 0.1,
           flood_damage = 0, attachment = 1, relative_elevation = q * 10,
           inundation = 0, retreated = False\<rparr>)"

definition calculate_adaptive_capacity :: "real \<Rightarrow> Household \<Rightarrow> Household" where
  "calculate_adaptive_capacity noise h =
     h\<lparr>adaptive_capacity := adaptive_capacity h + noise\<rparr>"

definition retreated_connections :: "(nat \<Rightarrow> Household) \<Rightarrow> nat list \<Rightarrow> nat" where
  "retreated_connections st cs = length (filter (\<lambda>a. retreated (st a)) cs)"

definition remaining_connections :: "(nat \<Rightarrow> Household) \<Rightarrow> nat list \<Rightarrow> nat" where
  "remaining_connections st cs = length (filter (\<lambda>a. \<not> retreated (st a)) cs)"

definition attachment_of :: "(nat \<Rightarrow> Household) \<Rightarrow> nat list \<Rightarrow> real" where
  "attachment_of st cs =
     (if retreated_connections st cs + remaining_connections st cs > 0
      then real (remaining_connections st cs)
             / real (retreated_connections st cs + remaining_connections st cs)
      else 0)"

definition calculate_attachment :: "Model \<Rightarrow> Household \<Rightarrow> Household" where
  "calculate_attachment m h = h\<lparr>attachment := attachment_of (agents m) (connections h)\<rparr>"

definition apply_inundation :: "Model \<Rightarrow> Household \<Rightarrow> Household" where
  "apply_inundation m h =
     (let rel = elevation h - sea_level m;
          resistance_level = max (resistance h) (real_of_int (community_resistance m))
      in h\<lparr>relative_elevation := rel,
            inundation := - (rel + resistance_level + accommodation h)\<rparr>)"

definition apply_damage :: "Model \<Rightarrow> Household \<Rightarrow> Household" where
  "apply_damage m h =
     (let h1 = h\<lparr>flood_damage := flood_damage h * 0.9\<rparr>
      in if storm_surge m > 0
         then (let flood_height = max 0 (storm_surge m + inundation h1)
               in h1\<lparr>flood_damage := flood_height * (1 - accommodation h1 * 0.05)\<rparr>)
         else h1)"

text \<open>\<^verbatim>\<open>Household.step\<close>, the observe phase of one agent.\<close>

definition household_step :: "Model \<Rightarrow> real \<Rightarrow> Household \<Rightarrow> Household" where
  "household_step m noise h =
     apply_damage m (apply_inundation m (calculate_attachment m
       (calculate_adaptive_capacity noise h)))"

subsection \<open>The decision of one agent\<close>

text \<open>Lines 199 to 201 of \<^verbatim>\<open>make_decision\<close>: the probability of any action.\<close>

definition set_p_action :: "Household \<Rightarrow> Household" where
  "set_p_action h =
     (let d = min (flood_damage h) 10;
          i = min 1 (max (inundation h) 0)
      in h\<lparr>p_action := 0.09 * d + 1.8 * i - 0.18 * d * i + 0.1\<rparr>)"

text \<open>Lines 202 and 203: the weight of resistance stays as stored or becomes 0.\<close>

definition set_p_resist :: "Household \<Rightarrow> Household" where
  "set_p_resist h =
     (if resistance h \<ge> 2 \<or> adaptive_capacity h \<le> 0 then h\<lparr>p_resist := 0\<rparr> else h)"

text \<open>Lines 204 to 207: the stored weight of accommodation is scaled or becomes 0.\<close>

definition set_p_accommodate :: "Model \<Rightarrow> Household \<Rightarrow> Household" where
  "set_p_accommodate m h =
     (if accommodation h < 2
         \<and> adaptive_capacity h > - 0.1 * (real_of_int (accommodation_incentive m) - 1)
      then h\<lparr>p_accommodate := p_accommodate h * real_of_int (accommodation_incentive m)\<rparr>
      else h\<lparr>p_accommodate := 0\<rparr>)"

text \<open>Lines 208 to 214: the stored weight of retreat is scaled or becomes 0.\<close>

definition set_p_retreat :: "Model \<Rightarrow> Household \<Rightarrow> error + Household" where
  "set_p_retreat m h =
     (if adaptive_capacity h > - 0.1 * (real_of_int (retreat_incentive m) - 1)
      then (if attachment h \<noteq> 0
            then (case py_div (p_retreat h * real_of_int (retreat_incentive m)) (attachment h) of
                    Inl e \<Rightarrow> Inl e
                  | Inr q \<Rightarrow> Inr (h\<lparr>p_retreat := q\<rparr>))
            else Inr (h\<lparr>p_retreat := p_retreat h * real_of_int (retreat_incentive m)\<rparr>))
      else Inr (h\<lparr>p_retreat := 0\<rparr>))"

text \<open>Lines 199 to 214 together: \<open>p_action\<close> and the three raw weights.\<close>

definition raw_weights :: "Model \<Rightarrow> Household \<Rightarrow> error + Household" where
  "raw_weights m h = set_p_retreat m (set_p_accommodate m (set_p_resist (set_p_action h)))"

definition weight_sum :: "Household \<Rightarrow> real" where
  "weight_sum h = p_resist h + p_accommodate h + p_retreat h"

text \<open>
  Lines 217 to 219: three assignments in sequence, each dividing by the sum of the
  weights as they are stored at that moment.
\<close>

definition rescale_resist :: "Household \<Rightarrow> error + Household" where
  "rescale_resist h =
     (case py_div (p_resist h) (weight_sum h) of
        Inl e \<Rightarrow> Inl e
      | Inr q \<Rightarrow> Inr (h\<lparr>p_resist := q * p_action h\<rparr>))"

definition rescale_accommodate :: "Household \<Rightarrow> error + Household" where
  "rescale_accommodate h =
     (case py_div (p_accommodate h) (weight_sum h) of
        Inl e \<Rightarrow> Inl e
      | Inr q \<Rightarrow> Inr (h\<lparr>p_accommodate := q * p_action h\<rparr>))"

definition rescale_retreat :: "Household \<Rightarrow> error + Household" where
  "rescale_retreat h =
     (case py_div (p_retreat h) (weight_sum h) of
        Inl e \<Rightarrow> Inl e
      | Inr q \<Rightarrow> Inr (h\<lparr>p_retreat := q * p_action h\<rparr>))"

definition normalize_weights :: "Household \<Rightarrow> error + Household" where
  "normalize_weights h =
     (case rescale_resist h of
        Inl e \<Rightarrow> Inl e
      | Inr h1 \<Rightarrow>
          (case rescale_accommodate h1 of
             Inl e \<Rightarrow> Inl e
           | Inr h2 \<Rightarrow> rescale_retreat h2))"

text \<open>The ladder of lines 221 to 226 and 228 to 233.\<close>

definition escalate :: "real \<Rightarrow> real" where
  "escalate v = (if v = 0 then 1 else if v = 1 then 1.5 else 2)"

text \<open>Lines 220 to 237: the action chosen by the draw \<open>x\<close>.\<close>

definition act :: "Model \<Rightarrow> real \<Rightarrow> Household \<Rightarrow> Household" where
  "act m x h =
     (if x < p_resist h then h\<lparr>resistance := escalate (resistance h)\<rparr>
      else if x < p_resist h + p_accommodate h
      then h\<lparr>accommodation := escalate (accommodation h)\<rparr>
      else if x < p_action h
      then (if \<exists>a \<in> set (schedule m). unique_id (agents m a) = unique_id h
            then h\<lparr>retreated := True\<rparr> else h)
      else h)"

definition make_decision :: "Model \<Rightarrow> real \<Rightarrow> Household \<Rightarrow> error + Household" where
  "make_decision m x h =
     (case raw_weights m h of
        Inl e \<Rightarrow> Inl e
      | Inr h1 \<Rightarrow>
          (if weight_sum h1 \<noteq> 0
           then (case normalize_weights h1 of Inl e \<Rightarrow> Inl e | Inr h2 \<Rightarrow> Inr (act m x h2))
           else Inr h1))"

section \<open>AdaptationModel\<close>

text \<open>
  The library classes are modelled by what the source uses of them:
  \<^verbatim>\<open>SimultaneousActivation\<close> keeps the list \<^verbatim>\<open>agents\<close>, to which \<^verbatim>\<open>add\<close> appends,
  and its \<^verbatim>\<open>step\<close> calls \<^verbatim>\<open>step\<close> of every agent of the list and then \<^verbatim>\<open>advance\<close> of
  every agent of the list; \<^verbatim>\<open>SingleGrid.place_agent\<close> fills an empty cell, raises on an
  occupied one and records the cell as \<^verbatim>\<open>pos\<close> of the agent, which therefore is
  \<open>(pos_x, pos_y)\<close>; \<^verbatim>\<open>_remove_agent\<close> empties the cell it is given.
\<close>

subsection \<open>Construction\<close>

definition place_agent :: "nat \<Rightarrow> int \<times> int \<Rightarrow> Model \<Rightarrow> error + Model" where
  "place_agent a p m =
     (case grid m p of
        Some b \<Rightarrow> Inl CellNotEmpty
      | None \<Rightarrow> Inr (m\<lparr>grid := (grid m)(p \<mapsto> a)\<rparr>))"

text \<open>
  The loop of lines 36 to 41 over the sampled locations; \<open>i\<close> is the loop counter and
  \<open>caps i\<close> the capacity drawn by the constructor of agent \<open>i\<close>.
\<close>

fun create_agents :: "(nat \<Rightarrow> real) \<Rightarrow> nat \<Rightarrow> nat list \<Rightarrow> Model \<Rightarrow> error + Model" where
  "create_agents caps i [] m = Inr m"
| "create_agents caps i (l # ls) m =
     (if height m = 0 then Inl ZeroDivisionError
      else (let px = int (l div height m); py = int (l mod height m)
            in case Household_init i (width m) px py (caps i) of
                 Inl e \<Rightarrow> Inl e
               | Inr a \<Rightarrow>
                   (let m1 = m\<lparr>agents := (agents m)(i := a)\<rparr>;
                        m2 = m1\<lparr>schedule := schedule m1 @ [i]\<rparr>
                    in case place_agent i (pos_x a, pos_y a) m2 of
                         Inl e \<Rightarrow> Inl e
                       | Inr m3 \<Rightarrow>
                           create_agents caps (Suc i) ls
                             (m3\<lparr>agent_list := agent_list m3 @ [i]\<rparr>))))"

text \<open>
  \<^verbatim>\<open>AdaptationModel.__init__\<close>. \<open>locations\<close> is the list returned by
  \<^verbatim>\<open>random.sample(range(width * height), n)\<close>, which raises when \<open>n\<close> exceeds the
  number of cells.
\<close>

definition init_model ::
  "nat \<Rightarrow> nat \<Rightarrow> nat \<Rightarrow> real \<Rightarrow> string \<Rightarrow> real \<Rightarrow> int \<Rightarrow> nat list \<Rightarrow> (nat \<Rightarrow> real) \<Rightarrow> error + Model" where
  "init_model w h n slr network_structure parameter init_time locations caps =
     (if n > w * h then Inl ValueError
      else create_agents caps 0 locations
        \<lparr>num_agents = int n, width = w, height = h, slr_acceleration = slr,
         init_slr_increase = 0.007, network_mode = network_structure,
         network_parameter = parameter, schedule = [], grid = (\<lambda>p. None),
         sea_level = 0, storm_surge = 0, community_resistance = 0,
         accommodation_incentive = 1, retreat_incentive = 1, p_adapt = 0,
         agent_list = [], agents = (\<lambda>i. undefined), tick = init_time\<rparr>)"

text \<open>What \<^verbatim>\<open>random.sample(range(w * h), n)\<close> can return.\<close>

definition valid_sample :: "nat \<Rightarrow> nat \<Rightarrow> nat \<Rightarrow> nat list \<Rightarrow> bool" where
  "valid_sample w h n locations \<longleftrightarrow>
     length locations = n \<and> distinct locations \<and> list_all (\<lambda>l. l < w * h) locations"

subsection \<open>The social network\<close>

text \<open>\<^verbatim>\<open>i.connections.append(j)\<close> followed by \<^verbatim>\<open>j.connections.append(i)\<close>.\<close>

definition connect :: "nat \<Rightarrow> nat \<Rightarrow> (nat \<Rightarrow> Household) \<Rightarrow> (nat \<Rightarrow> Household)" where
  "connect i j st =
     (let st1 = st(i := (st i)\<lparr>connections := connections (st i) @ [j]\<rparr>)
      in st1(j := (st1 j)\<lparr>connections := connections (st1 j) @ [i]\<rparr>))"

definition within_radius :: "real \<Rightarrow> Household \<Rightarrow> Household \<Rightarrow> bool" where
  "within_radius radius a b \<longleftrightarrow>
     \<bar>real_of_int (pos_x a - pos_x b)\<bar> < radius \<and> \<bar>real_of_int (pos_y a - pos_y b)\<bar> < radius
     \<and> unique_id a \<noteq> unique_id b"

definition spatial_inner :: "real \<Rightarrow> nat \<Rightarrow> nat list \<Rightarrow> (nat \<Rightarrow> Household) \<Rightarrow> (nat \<Rightarrow> Household)" where
  "spatial_inner radius i js st =
     fold (\<lambda>j s. if within_radius radius (s i) (s j) then connect i j s else s) js st"

text \<open>\<open>draw i j\<close> is the value of \<^verbatim>\<open>random.random()\<close> when the loops are at \<open>i\<close> and \<open>j\<close>.\<close>

definition aspatial_inner ::
  "real \<Rightarrow> (nat \<Rightarrow> nat \<Rightarrow> real) \<Rightarrow> nat \<Rightarrow> nat list \<Rightarrow> (nat \<Rightarrow> Household) \<Rightarrow> (nat \<Rightarrow> Household)" where
  "aspatial_inner density draw i js st =
     fold (\<lambda>j s. if unique_id (s j) > unique_id (s i)
                 then (if draw i j < density then connect i j s else s)
                 else s) js st"

definition set_init_connections :: "(nat \<Rightarrow> nat \<Rightarrow> real) \<Rightarrow> Model \<Rightarrow> Model" where
  "set_init_connections draw m =
     (if network_mode m = ''aspatial''
      then m\<lparr>agents := fold (\<lambda>i s. aspatial_inner (network_parameter m) draw i (schedule m) s)
                          (schedule m) (agents m)\<rparr>
      else m\<lparr>agents := fold (\<lambda>i s. spatial_inner (network_parameter m) i (schedule m) s)
                          (schedule m) (agents m)\<rparr>)"

subsection \<open>One year\<close>

definition calculate_inundation :: "Model \<Rightarrow> Model" where
  "calculate_inundation m =
     m\<lparr>sea_level := init_slr_increase m * real_of_int (tick m)
                    + slr_acceleration m * (real_of_int (tick m))\<^sup>2\<rparr>"

text \<open>\<^verbatim>\<open>math.log\<close> raises \<^verbatim>\<open>ValueError\<close> on an argument that is not positive.\<close>

definition calculate_storm_surge :: "real \<Rightarrow> Model \<Rightarrow> error + Model" where
  "calculate_storm_surge aep m =
     (if 2 * aep \<le> 0 then Inl ValueError
      else Inr (m\<lparr>storm_surge := max 0 (- ln (2 * aep) / 1.164)\<rparr>))"

definition total_damage :: "Model \<Rightarrow> real" where
  "total_damage m = sum_list (map (\<lambda>a. flood_damage (agents m a)) (schedule m))"

definition total_inundation :: "Model \<Rightarrow> real" where
  "total_inundation m = sum_list (map (\<lambda>a. inundation (agents m a)) (schedule m))"

text \<open>Lines 110 to 121: the thresholds tried in sequence against the one draw \<open>x\<close>.\<close>

definition staircase :: "real \<Rightarrow> Model \<Rightarrow> Model" where
  "staircase x m =
     (if community_resistance m < 3
      then (if x < p_adapt m * 0.6
            then m\<lparr>community_resistance := community_resistance m + 1\<rparr>
            else if x < p_adapt m * 0.3
            then m\<lparr>accommodation_incentive := accommodation_incentive m + 1\<rparr>
            else if x < p_adapt m
            then m\<lparr>retreat_incentive := retreat_incentive m + 1\<rparr>
            else m)
      else (if x < p_adapt m * 0.7
            then m\<lparr>accommodation_incentive := accommodation_incentive m + 1\<rparr>
            else if x < p_adapt m
            then m\<lparr>retreat_incentive := retreat_incentive m + 1\<rparr>
            else m))"

text \<open>Lines 122 to 125, with the two further draws \<open>r1\<close> and \<open>r2\<close>.\<close>

definition decrements :: "real \<Rightarrow> real \<Rightarrow> Model \<Rightarrow> Model" where
  "decrements r1 r2 m =
     (let m1 = (if r1 < 0.1
                then m\<lparr>accommodation_incentive := max 1 (accommodation_incentive m - 1)\<rparr>
                else m)
      in if r2 < 0.1
         then m1\<lparr>retreat_incentive := max 1 (retreat_incentive m1 - 1)\<rparr>
         else m1)"

text \<open>Lines 107 to 109: the probability of community adaptation from the two averages.\<close>

definition set_p_adapt :: "Model \<Rightarrow> Model" where
  "set_p_adapt m =
     (let average_damage = min 10 (total_damage m / real_of_int (num_agents m));
          average_inundation =
            max 0 (min (total_inundation m / real_of_int (num_agents m)) 0.5)
      in m\<lparr>p_adapt := 0.09 * average_damage + 1.8 * average_inundation
                         - 0.18 * average_damage * average_inundation + 0.1\<rparr>)"

definition community_adaptation :: "real \<Rightarrow> real \<Rightarrow> real \<Rightarrow> Model \<Rightarrow> Model" where
  "community_adaptation x r1 r2 m =
     (if num_agents m > 0 then decrements r1 r2 (staircase x (set_p_adapt m)) else m)"

text \<open>The two passes of \<^verbatim>\<open>schedule.step()\<close> over the list of agents.\<close>

definition observe_agent :: "(nat \<Rightarrow> real) \<Rightarrow> nat \<Rightarrow> Model \<Rightarrow> Model" where
  "observe_agent noise a s =
     s\<lparr>agents := (agents s)(a := household_step s (noise a) (agents s a))\<rparr>"

definition observe_all :: "(nat \<Rightarrow> real) \<Rightarrow> Model \<Rightarrow> Model" where
  "observe_all noise m = fold (observe_agent noise) (schedule m) m"

fun advance_all :: "(nat \<Rightarrow> real) \<Rightarrow> nat list \<Rightarrow> Model \<Rightarrow> error + Model" where
  "advance_all xs [] m = Inr m"
| "advance_all xs (a # as) m =
     (case make_decision m (xs a) (agents m a) of
        Inl e \<Rightarrow> Inl e
      | Inr h \<Rightarrow> advance_all xs as (m\<lparr>agents := (agents m)(a := h)\<rparr>))"

definition schedule_step :: "(nat \<Rightarrow> real) \<Rightarrow> (nat \<Rightarrow> real) \<Rightarrow> Model \<Rightarrow> error + Model" where
  "schedule_step noise xs m = (let m1 = observe_all noise m in advance_all xs (schedule m1) m1)"

text \<open>The body of the loop of lines 57 to 61 for one agent of \<^verbatim>\<open>agent_list\<close>.\<close>

definition reap :: "nat \<Rightarrow> Model \<Rightarrow> Model" where
  "reap a m =
     (if retreated (agents m a) \<and> a \<in> set (schedule m)
      then m\<lparr>schedule := remove1 a (schedule m),
             grid := (grid m)((pos_x (agents m a), pos_y (agents m a)) := None),
             num_agents := num_agents m - 1\<rparr>
      else m)"

text \<open>The random draws of one year.\<close>

record Draws =
  aep :: real
  x_adapt :: real
  r_accommodation :: real
  r_retreat :: real
  capacity_noise :: "nat \<Rightarrow> real"
  x_decision :: "nat \<Rightarrow> real"

text \<open>
  \<^verbatim>\<open>AdaptationModel.step\<close>. The data collector only reads the model and is left out.
\<close>

definition step :: "Draws \<Rightarrow> Model \<Rightarrow> error + Model" where
  "step d m =
     (case calculate_storm_surge (aep d) (calculate_inundation m) of
        Inl e \<Rightarrow> Inl e
      | Inr m1 \<Rightarrow>
          (case schedule_step (capacity_noise d) (x_decision d)
                  (community_adaptation (x_adapt d) (r_accommodation d) (r_retreat d) m1) of
             Inl e \<Rightarrow> Inl e
           | Inr m2 \<Rightarrow>
               (let m3 = fold reap (agent_list m2) m2
                in Inr (m3\<lparr>tick := tick m3 + 1\<rparr>))))"

text \<open>The loop of \<^verbatim>\<open>slr_adaptation\<close> in \<^verbatim>\<open>RunModel.py\<close>: one \<^verbatim>\<open>model.step()\<close> per year.\<close>

fun run :: "Draws list \<Rightarrow> Model \<Rightarrow> error + Model" where
  "run [] m = Inr m"
| "run (d # ds) m = (case step d m of Inl e \<Rightarrow> Inl e | Inr m1 \<Rightarrow> run ds m1)"

text \<open>
  The states of a run: a model as constructed, with or without its social network, and
  every state that a year leads to.
\<close>

inductive reachable :: "Model \<Rightarrow> bool" where
  init: "valid_sample w h n locations \<Longrightarrow>
         init_model w h n slr mode parameter t0 locations caps = Inr m \<Longrightarrow> reachable m"
| network: "valid_sample w h n locations \<Longrightarrow>
         init_model w h n slr mode parameter t0 locations caps = Inr m \<Longrightarrow>
         reachable (set_init_connections draw m)"
| year: "reachable m \<Longrightarrow> step d m = Inr m' \<Longrightarrow> reachable m'"

section \<open>Invariants and auxiliary notions\<close>

text \<open>The numeric sanity of one household: its two adaptation levels are on the ladder, and
  its damage, weights and attachment are not negative.\<close>

definition household_ok :: "Household \<Rightarrow> bool" where
  "household_ok h \<longleftrightarrow>
     (resistance h = 0 \<or> resistance h = 1 \<or> resistance h = 1.5 \<or> resistance h = 2)
     \<and> (accommodation h = 0 \<or> accommodation h = 1 \<or> accommodation h = 1.5
          \<or> accommodation h = 2)
     \<and> 0 \<le> flood_damage h \<and> 0 \<le> p_resist h \<and> 0 \<le> p_accommodate h
     \<and> 0 \<le> p_retreat h \<and> 0 \<le> attachment h"

text \<open>The fields of a household that no method assigns after construction.\<close>

definition identity_kept :: "Household \<Rightarrow> Household \<Rightarrow> bool" where
  "identity_kept h h' \<longleftrightarrow>
     unique_id h' = unique_id h \<and> pos_x h' = pos_x h \<and> pos_y h' = pos_y h
     \<and> connections h' = connections h \<and> elevation h' = elevation h"

text \<open>The fields that the commit phase leaves as the observe phase set them.\<close>

definition observed_kept :: "Household \<Rightarrow> Household \<Rightarrow> bool" where
  "observed_kept h h' \<longleftrightarrow>
     identity_kept h h' \<and> adaptive_capacity h' = adaptive_capacity h
     \<and> flood_damage h' = flood_damage h \<and> attachment h' = attachment h
     \<and> relative_elevation h' = relative_elevation h \<and> inundation h' = inundation h"

text \<open>The fields that only the chosen action changes.\<close>

definition decided_kept :: "Household \<Rightarrow> Household \<Rightarrow> bool" where
  "decided_kept h h' \<longleftrightarrow>
     resistance h' = resistance h \<and> accommodation h' = accommodation h
     \<and> retreated h' = retreated h"

text \<open>The raw weight of retreat, as lines 208 to 214 compute it from the stored one.\<close>

definition retreat_weight :: "Model \<Rightarrow> Household \<Rightarrow> real" where
  "retreat_weight m h =
     (if adaptive_capacity h > - 0.1 * (real_of_int (retreat_incentive m) - 1)
      then (if attachment h \<noteq> 0
            then p_retreat h * real_of_int (retreat_incentive m) / attachment h
            else p_retreat h * real_of_int (retreat_incentive m))
      else 0)"

text \<open>The household with \<open>p_action\<close> and its three raw weights.\<close>

definition weighted :: "Model \<Rightarrow> Household \<Rightarrow> Household" where
  "weighted m h =
     (let h3 = set_p_accommodate m (set_p_resist (set_p_action h))
      in h3\<lparr>p_retreat := retreat_weight m h3\<rparr>)"

text \<open>Weights that can be rescaled: none negative, a positive sum, a positive \<open>p_action\<close>.\<close>

definition weights_ok :: "Household \<Rightarrow> bool" where
  "weights_ok h \<longleftrightarrow>
     0 \<le> p_resist h \<and> 0 \<le> p_accommodate h \<and> 0 \<le> p_retreat h
     \<and> 0 < weight_sum h \<and> 0 < p_action h"

text \<open>The results of lines 217, 218 and 219 when the divisor is not zero.\<close>

definition resist_rescaled :: "Household \<Rightarrow> Household" where
  "resist_rescaled h = h\<lparr>p_resist := p_resist h / weight_sum h * p_action h\<rparr>"

definition accommodate_rescaled :: "Household \<Rightarrow> Household" where
  "accommodate_rescaled h = h\<lparr>p_accommodate := p_accommodate h / weight_sum h * p_action h\<rparr>"

definition retreat_rescaled :: "Household \<Rightarrow> Household" where
  "retreat_rescaled h = h\<lparr>p_retreat := p_retreat h / weight_sum h * p_action h\<rparr>"

definition normalized :: "Household \<Rightarrow> Household" where
  "normalized h = retreat_rescaled (accommodate_rescaled (resist_rescaled h))"

text \<open>The household after \<^verbatim>\<open>make_decision\<close> when no division fails.\<close>

definition decided :: "Model \<Rightarrow> real \<Rightarrow> Household \<Rightarrow> Household" where
  "decided m x h =
     (if weight_sum (weighted m h) \<noteq> 0 then act m x (normalized (weighted m h))
      else weighted m h)"

text \<open>Every occupied cell holds a scheduled agent, at the position of that agent.\<close>

definition grid_ok :: "Model \<Rightarrow> bool" where
  "grid_ok m \<longleftrightarrow>
     (\<forall>p a. grid m p = Some a \<longrightarrow>
        a \<in> set (schedule m) \<and> p = (pos_x (agents m a), pos_y (agents m a)))"

text \<open>The ranges of the community fields.\<close>

definition incentives_ok :: "Model \<Rightarrow> bool" where
  "incentives_ok m \<longleftrightarrow>
     0 \<le> community_resistance m \<and> community_resistance m \<le> 3
     \<and> 1 \<le> accommodation_incentive m \<and> 1 \<le> retreat_incentive m"

text \<open>Every agent ever created is sane and stored under its own identifier.\<close>

definition agents_ok :: "Model \<Rightarrow> bool" where
  "agents_ok m \<longleftrightarrow>
     (\<forall>a\<in>set (agent_list m). household_ok (agents m a) \<and> unique_id (agents m a) = a)"

text \<open>The scheduler, the counter and the grid agree, and no scheduled agent has retreated.\<close>

definition roster_ok :: "Model \<Rightarrow> bool" where
  "roster_ok m \<longleftrightarrow>
     num_agents m = int (length (schedule m)) \<and> distinct (schedule m)
     \<and> set (schedule m) \<subseteq> set (agent_list m)
     \<and> (\<forall>a\<in>set (schedule m). \<not> retreated (agents m a)) \<and> grid_ok m"

text \<open>The invariant of the observation points.\<close>

definition model_ok :: "Model \<Rightarrow> bool" where
  "model_ok m \<longleftrightarrow> agents_ok m \<and> incentives_ok m \<and> roster_ok m"

text \<open>What one year may do to one household.\<close>

definition agent_step :: "Household \<Rightarrow> Household \<Rightarrow> bool" where
  "agent_step h h' \<longleftrightarrow>
     identity_kept h h' \<and> (retreated h \<longrightarrow> retreated h')
     \<and> (household_ok h \<longrightarrow>
          household_ok h' \<and> resistance h \<le> resistance h'
          \<and> accommodation h \<le> accommodation h')"

text \<open>The model on which the agents are stepped: sea level, surge, community adaptation.\<close>

definition before_agents :: "Draws \<Rightarrow> Model \<Rightarrow> Model" where
  "before_agents d m =
     community_adaptation (x_adapt d) (r_accommodation d) (r_retreat d)
       ((calculate_inundation m)\<lparr>storm_surge := max 0 (- ln (2 * aep d) / 1.164)\<rparr>)"

text \<open>A household as its constructor leaves it.\<close>

definition fresh :: "nat \<Rightarrow> Household \<Rightarrow> bool" where
  "fresh a h \<longleftrightarrow>
     household_ok h \<and> unique_id h = a \<and> \<not> retreated h \<and> connections h = []"

text \<open>The state of the constructor loop after \<open>i\<close> agents.\<close>

definition built :: "nat \<Rightarrow> Model \<Rightarrow> bool" where
  "built i m \<longleftrightarrow>
     schedule m = [0..<i] \<and> agent_list m = [0..<i]
     \<and> (\<forall>a<i. fresh a (agents m a)) \<and> grid_ok m"

text \<open>Two households that differ at most in their connections; two stores that do so
  at every reference.\<close>

definition same_but_connections :: "Household \<Rightarrow> Household \<Rightarrow> bool" where
  "same_but_connections h h' \<longleftrightarrow> h\<lparr>connections := []\<rparr> = h'\<lparr>connections := []\<rparr>"

definition stores_agree :: "(nat \<Rightarrow> Household) \<Rightarrow> (nat \<Rightarrow> Household) \<Rightarrow> bool" where
  "stores_agree st s \<longleftrightarrow> (\<forall>a. same_but_connections (st a) (s a))"

text \<open>How often the visit of the loops at the pair \<open>(i, j)\<close> appends \<open>b\<close> to the connections of
  \<open>a\<close>, when the pair is connected.\<close>

definition contribution :: "nat \<Rightarrow> nat \<Rightarrow> nat \<Rightarrow> nat \<Rightarrow> nat" where
  "contribution a b i j = (if a = i \<and> b = j then 1 else 0) + (if a = j \<and> b = i then 1 else 0)"

text \<open>The inner and the outer loop of the construction for a condition \<open>C\<close> that does not
  depend on the store.\<close>

definition link :: "(nat \<Rightarrow> nat \<Rightarrow> bool) \<Rightarrow> nat \<Rightarrow> nat list \<Rightarrow> (nat \<Rightarrow> Household) \<Rightarrow> (nat \<Rightarrow> Household)" where
  "link C i js st = fold (\<lambda>j s. if C i j then connect i j s else s) js st"

definition link_all :: "(nat \<Rightarrow> nat \<Rightarrow> bool) \<Rightarrow> nat list \<Rightarrow> nat list \<Rightarrow> (nat \<Rightarrow> Household) \<Rightarrow> (nat \<Rightarrow> Household)" where
  "link_all C is js st = fold (\<lambda>i s. link C i js s) is st"

section \<open>Example runs\<close>

text \<open>
  One household on a grid of one cell, constructed at tick 50 with capacity draw 1 and
  no sea level acceleration, as \<^verbatim>\<open>AdaptationModel(1, 1, 1, 0, 'aspatial', 0, 50)\<close> builds it.
\<close>

definition demo_agent :: Household where
  "demo_agent =
     \<lparr>unique_id = 0, pos_x = 0, pos_y = 0, connections = [],
      elevation = 0, adaptive_capacity = 1, resistance = 0, accommodation = 0,
      p_action = 0, p_resist = 0.6, p_accommodate = 0.3, p_retreat = 0.1,
      flood_damage = 0, attachment = 1, relative_elevation = 0,
      inundation = 0, retreated = False\<rparr>"

definition demo_model :: Model where
  "demo_model =
     \<lparr>num_agents = 1, width = 1, height = 1, slr_acceleration = 0,
      init_slr_increase = 0.007, network_mode = ''aspatial'',
      network_parameter = 0, schedule = [0], grid = (\<lambda>p. None)((0, 0) \<mapsto> 0),
      sea_level = 0, storm_surge = 0, community_resistance = 0,
      accommodation_incentive = 1, retreat_incentive = 1, p_adapt = 0,
      agent_list = [0], agents = (\<lambda>i. undefined)(0 := demo_agent), tick = 50\<rparr>"

text \<open>
  A year without storm surge (\<open>aep = 1/2\<close>), without community action and without
  capacity noise, in which every household draws \<open>x\<close> for its decision.
\<close>

definition quiet_year :: "real \<Rightarrow> Draws" where
  "quiet_year x =
     \<lparr>aep = 1 / 2, x_adapt = 0.99, r_accommodation = 0.99, r_retreat = 0.99,
      capacity_noise = (\<lambda>a. 0), x_decision = (\<lambda>a. x)\<rparr>"

text \<open>The household after the observe phase of the year.\<close>

definition demo_observed :: Household where
  "demo_observed =
     demo_agent\<lparr>attachment := 0, relative_elevation := - (7 / 20), inundation := 7 / 20\<rparr>"

text \<open>The household after the year: its state is the same for both draws but for \<open>retreated\<close>.\<close>

definition demo_agent_after :: "bool \<Rightarrow> Household" where
  "demo_agent_after r =
     \<lparr>unique_id = 0, pos_x = 0, pos_y = 0, connections = [],
      elevation = 0, adaptive_capacity = 1, resistance = 0, accommodation = 0,
      p_action = 73 / 100, p_resist = 219 / 500, p_accommodate = 219 / 838,
      p_retreat = 30587 / 334922, flood_damage = 0, attachment = 0,
      relative_elevation = - (7 / 20), inundation = 7 / 20, retreated = r\<rparr>"

text \<open>The model after a quiet year in which the household draws 0.99 and does nothing.\<close>

definition demo_stayed :: Model where
  "demo_stayed =
     demo_model\<lparr>sea_level := 7 / 20, p_adapt := 1 / 10,
       agents := (\<lambda>i. undefined)(0 := demo_agent_after False), tick := 51\<rparr>"

text \<open>The model after a quiet year in which the household draws 0.72 and retreats.\<close>

definition demo_retreated :: Model where
  "demo_retreated =
     demo_model\<lparr>num_agents := 0, schedule := [], grid := (\<lambda>p. None),
       sea_level := 7 / 20, p_adapt := 1 / 10,
       agents := (\<lambda>i. undefined)(0 := demo_agent_after True), tick := 51\<rparr>"

text \<open>The model after a quiet year in which the household draws 0.1 and resists.\<close>

definition demo_resisted :: Model where
  "demo_resisted =
     demo_model\<lparr>sea_level := 7 / 20, p_adapt := 1 / 10,
       agents := (\<lambda>i. undefined)(0 := (demo_agent_after False)\<lparr>resistance := 1\<rparr>),
       tick := 51\<rparr>"

text \<open>The household of \<open>demo_stayed\<close> after the observe phase of the following quiet year.\<close>

definition demo_observed_again :: Household where
  "demo_observed_again =
     (demo_agent_after False)\<lparr>relative_elevation := - (357 / 1000), inundation := 357 / 1000\<rparr>"

text \<open>Two households on a grid of two cells, as \<^verbatim>\<open>AdaptationModel(2, 1, 2, 0, mode, parameter, 0)\<close>
  builds them from the sample \<open>[0, 1]\<close> and capacity draws 1.\<close>

definition demo_pair_agent :: "nat \<Rightarrow> Household" where
  "demo_pair_agent i =
     \<lparr>unique_id = i, pos_x = int i, pos_y = 0, connections = [],
      elevation = real i * 5, adaptive_capacity = 1, resistance = 0, accommodation = 0,
      p_action = 0, p_resist = 0.6, p_accommodate = 0.3, p_retreat = 0.1,
      flood_damage = 0, attachment = 1, relative_elevation = real i * 5,
      inundation = 0, retreated = False\<rparr>"

definition demo_pair :: "string \<Rightarrow> real \<Rightarrow> Model" where
  "demo_pair mode parameter =
     \<lparr>num_agents = 2, width = 2, height = 1, slr_acceleration = 0,
      init_slr_increase = 0.007, network_mode = mode,
      network_parameter = parameter, schedule = [0, 1],
      grid = (\<lambda>p. None)((0, 0) \<mapsto> 0, (1, 0) \<mapsto> 1),
      sea_level = 0, storm_surge = 0, community_resistance = 0,
      accommodation_incentive = 1, retreat_incentive = 1, p_adapt = 0,
      agent_list = [0, 1],
      agents = (\<lambda>i. undefined)(0 := demo_pair_agent 0, 1 := demo_pair_agent 1), tick = 0\<rparr>"

text \<open>A quiet year in which the capacity of every household changes by \<open>n\<close>.\<close>

definition noisy_year :: "real \<Rightarrow> real \<Rightarrow> Draws" where
  "noisy_year n x = (quiet_year x)\<lparr>capacity_noise := (\<lambda>a. n)\<rparr>"

text \<open>
  The household and the model after a first year in which the capacity falls from 1 to
  -1: the three rules store the weights 0, 0 and 0.
\<close>

definition demo_inert_agent :: Household where
  "demo_inert_agent =
     demo_observed\<lparr>adaptive_capacity := - 1, p_action := 73 / 100,
       p_resist := 0, p_accommodate := 0, p_retreat := 0\<rparr>"

definition demo_inert :: Model where
  "demo_inert =
     demo_model\<lparr>sea_level := 7 / 20, p_adapt := 1 / 10,
       agents := (\<lambda>i. undefined)(0 := demo_inert_agent), tick := 51\<rparr>"

text \<open>
  The model after a following year in which the capacity is back at 1 and the household
  draws 0 for its decision.
\<close>

definition demo_inert_again :: Model where
  "demo_inert_again =
     demo_model\<lparr>sea_level := 357 / 1000, p_adapt := 73 / 100,
       agents := (\<lambda>i. undefined)
         (0 := demo_inert_agent\<lparr>adaptive_capacity := 1, p_action := 3713 / 5000,
                 relative_elevation := - (357 / 1000), inundation := 357 / 1000\<rparr>),
       tick := 52\<rparr>"

section \<open>Properties of the decision, the scheduler and the constructor\<close>

lemma saturating_curve_lower:
  fixes d i :: real
  assumes "0 \<le> d" "d \<le> 10" "0 \<le> i" "i \<le> 1"
  shows "1 / 10 \<le> 9 / 100 * d + 18 / 10 * i - 18 / 100 * d * i + 1 / 10"
proof -
  have a: "0 \<le> d * (1 - i)" using assms by (intro mult_nonneg_nonneg) auto
  have b: "0 \<le> i * (18 / 10 - 9 / 100 * d)" using assms by (intro mult_nonneg_nonneg) auto
  have "9 / 100 * d + 18 / 10 * i - 18 / 100 * d * i + 1 / 10
      = 1 / 10 + 9 / 100 * (d * (1 - i)) + i * (18 / 10 - 9 / 100 * d)"
    by (simp add: field_simps)
  then show ?thesis using a b by linarith
qed

lemma set_p_action_kept:
  "observed_kept h (set_p_action h) \<and> decided_kept h (set_p_action h)
   \<and> p_resist (set_p_action h) = p_resist h
   \<and> p_accommodate (set_p_action h) = p_accommodate h
   \<and> p_retreat (set_p_action h) = p_retreat h"
  by (simp add: set_p_action_def Let_def observed_kept_def identity_kept_def decided_kept_def)

lemma set_p_action_lower:
  assumes "0 \<le> flood_damage h"
  shows "1 / 10 \<le> p_action (set_p_action h)"
proof -
  define d where "d = min (flood_damage h) 10"
  define i where "i = min 1 (max (inundation h) 0)"
  have d: "0 \<le> d" "d \<le> 10" using assms by (simp_all add: d_def)
  have i: "0 \<le> i" "i \<le> 1" by (simp_all add: i_def)
  have "p_action (set_p_action h) = 9 / 100 * d + 18 / 10 * i - 18 / 100 * d * i + 1 / 10"
    by (simp add: set_p_action_def Let_def d_def i_def)
  then show ?thesis using saturating_curve_lower [OF d i] by simp
qed

lemma set_p_resist_kept:
  "observed_kept h (set_p_resist h) \<and> decided_kept h (set_p_resist h)
   \<and> p_action (set_p_resist h) = p_action h
   \<and> p_accommodate (set_p_resist h) = p_accommodate h
   \<and> p_retreat (set_p_resist h) = p_retreat h"
  by (simp add: set_p_resist_def observed_kept_def identity_kept_def decided_kept_def)

lemma set_p_resist_value:
  "p_resist (set_p_resist h)
     = (if resistance h \<ge> 2 \<or> adaptive_capacity h \<le> 0 then 0 else p_resist h)"
  by (simp add: set_p_resist_def)

lemma set_p_accommodate_kept:
  "observed_kept h (set_p_accommodate m h) \<and> decided_kept h (set_p_accommodate m h)
   \<and> p_action (set_p_accommodate m h) = p_action h
   \<and> p_resist (set_p_accommodate m h) = p_resist h
   \<and> p_retreat (set_p_accommodate m h) = p_retreat h"
  by (simp add: set_p_accommodate_def observed_kept_def identity_kept_def decided_kept_def)

lemma set_p_accommodate_value:
  "p_accommodate (set_p_accommodate m h)
     = (if accommodation h < 2
           \<and> adaptive_capacity h > - 0.1 * (real_of_int (accommodation_incentive m) - 1)
        then p_accommodate h * real_of_int (accommodation_incentive m) else 0)"
  by (simp add: set_p_accommodate_def)

lemma set_p_retreat_value:
  "set_p_retreat m h = Inr (h\<lparr>p_retreat := retreat_weight m h\<rparr>)"
  by (simp add: set_p_retreat_def retreat_weight_def py_div_def)

lemma retreat_weight_nonneg:
  assumes "0 \<le> p_retreat h" "0 \<le> attachment h" "0 \<le> retreat_incentive m"
  shows "0 \<le> retreat_weight m h"
  using assms by (simp add: retreat_weight_def)

lemma raw_weights_weighted: "raw_weights m h = Inr (weighted m h)"
  by (simp add: raw_weights_def weighted_def set_p_retreat_value Let_def)

lemma weighted_kept: "observed_kept h (weighted m h) \<and> decided_kept h (weighted m h)"
proof -
  let ?h1 = "set_p_action h" and ?h2 = "set_p_resist (set_p_action h)"
  let ?h3 = "set_p_accommodate m (set_p_resist (set_p_action h))"
  have "observed_kept h ?h1" "decided_kept h ?h1"
    "observed_kept ?h1 ?h2" "decided_kept ?h1 ?h2"
    "observed_kept ?h2 ?h3" "decided_kept ?h2 ?h3"
    using set_p_action_kept set_p_resist_kept set_p_accommodate_kept by blast+
  then show ?thesis
    by (simp add: weighted_def Let_def observed_kept_def identity_kept_def decided_kept_def)
qed

lemma weighted_p_action: "p_action (weighted m h) = p_action (set_p_action h)"
  using set_p_resist_kept [of "set_p_action h"]
    set_p_accommodate_kept [where m = m and h = "set_p_resist (set_p_action h)"]
  by (simp add: weighted_def Let_def)

lemma weighted_p_resist:
  "p_resist (weighted m h)
     = (if resistance h \<ge> 2 \<or> adaptive_capacity h \<le> 0 then 0 else p_resist h)"
proof -
  have "p_resist (weighted m h) = p_resist (set_p_resist (set_p_action h))"
    using set_p_accommodate_kept [where m = m and h = "set_p_resist (set_p_action h)"]
    by (simp add: weighted_def Let_def)
  also have "\<dots> = (if resistance (set_p_action h) \<ge> 2 \<or> adaptive_capacity (set_p_action h) \<le> 0
                   then 0 else p_resist (set_p_action h))"
    by (rule set_p_resist_value)
  finally show ?thesis
    using set_p_action_kept [of h] by (simp add: observed_kept_def decided_kept_def)
qed

lemma weighted_p_accommodate:
  "p_accommodate (weighted m h)
     = (if accommodation h < 2
           \<and> adaptive_capacity h > - 0.1 * (real_of_int (accommodation_incentive m) - 1)
        then p_accommodate h * real_of_int (accommodation_incentive m) else 0)"
proof -
  let ?h2 = "set_p_resist (set_p_action h)"
  have k: "observed_kept h ?h2" "decided_kept h ?h2" "p_accommodate ?h2 = p_accommodate h"
    using set_p_action_kept [of h] set_p_resist_kept [of "set_p_action h"]
    by (simp_all add: observed_kept_def identity_kept_def decided_kept_def)
  have "p_accommodate (weighted m h) = p_accommodate (set_p_accommodate m ?h2)"
    by (simp add: weighted_def Let_def)
  then show ?thesis
    using k by (simp add: set_p_accommodate_value observed_kept_def decided_kept_def)
qed

lemma weighted_p_retreat:
  "p_retreat (weighted m h) = retreat_weight m h"
proof -
  let ?h3 = "set_p_accommodate m (set_p_resist (set_p_action h))"
  have k: "observed_kept h ?h3" "p_retreat ?h3 = p_retreat h"
    using set_p_action_kept [of h] set_p_resist_kept [of "set_p_action h"]
      set_p_accommodate_kept [where m = m and h = "set_p_resist (set_p_action h)"]
    by (simp_all add: observed_kept_def identity_kept_def)
  have "p_retreat (weighted m h) = retreat_weight m ?h3"
    by (simp add: weighted_def Let_def)
  then show ?thesis using k by (simp add: retreat_weight_def observed_kept_def)
qed

lemma rescale_resist_value:
  "weight_sum h \<noteq> 0 \<Longrightarrow> rescale_resist h = Inr (resist_rescaled h)"
  by (simp add: rescale_resist_def resist_rescaled_def py_div_def)

lemma rescale_accommodate_value:
  "weight_sum h \<noteq> 0 \<Longrightarrow> rescale_accommodate h = Inr (accommodate_rescaled h)"
  by (simp add: rescale_accommodate_def accommodate_rescaled_def py_div_def)

lemma rescale_retreat_value:
  "weight_sum h \<noteq> 0 \<Longrightarrow> rescale_retreat h = Inr (retreat_rescaled h)"
  by (simp add: rescale_retreat_def retreat_rescaled_def py_div_def)

lemma rescaled_sum_positive:
  fixes a b c s p :: real
  assumes "0 \<le> a" "0 \<le> b" "0 \<le> c" "0 < a + b + c" "0 < p" "0 < s"
  shows "0 \<le> a / s * p \<and> 0 < a / s * p + b + c"
proof (cases "a = 0")
  case True
  then show ?thesis using assms by simp
next
  case False
  then have "0 < a / s * p" using assms by simp
  then show ?thesis using assms by linarith
qed

lemma resist_rescaled_ok:
  assumes "weights_ok h"
  shows "weights_ok (resist_rescaled h)"
proof -
  have "0 \<le> p_resist h / weight_sum h * p_action h
      \<and> 0 < p_resist h / weight_sum h * p_action h + p_accommodate h + p_retreat h"
    by (rule rescaled_sum_positive) (use assms in \<open>simp_all add: weights_ok_def weight_sum_def\<close>)
  then show ?thesis
    using assms by (simp add: weights_ok_def resist_rescaled_def weight_sum_def)
qed

lemma accommodate_rescaled_ok:
  assumes "weights_ok h"
  shows "weights_ok (accommodate_rescaled h)"
proof -
  have "0 \<le> p_accommodate h / weight_sum h * p_action h
      \<and> 0 < p_accommodate h / weight_sum h * p_action h + p_resist h + p_retreat h"
    by (rule rescaled_sum_positive) (use assms in \<open>simp_all add: weights_ok_def weight_sum_def\<close>)
  then show ?thesis
    using assms by (simp add: weights_ok_def accommodate_rescaled_def weight_sum_def add.commute)
qed

lemma retreat_rescaled_ok:
  assumes "weights_ok h"
  shows "weights_ok (retreat_rescaled h)"
proof -
  have "0 \<le> p_retreat h / weight_sum h * p_action h
      \<and> 0 < p_retreat h / weight_sum h * p_action h + p_resist h + p_accommodate h"
    by (rule rescaled_sum_positive) (use assms in \<open>simp_all add: weights_ok_def weight_sum_def\<close>)
  then show ?thesis
    using assms by (simp add: weights_ok_def retreat_rescaled_def weight_sum_def add.commute)
qed

lemma normalize_total:
  assumes "weights_ok h"
  shows "normalize_weights h = Inr (normalized h) \<and> weights_ok (normalized h)"
proof -
  let ?h1 = "resist_rescaled h" and ?h2 = "accommodate_rescaled (resist_rescaled h)"
  have ok1: "weights_ok ?h1" using assms by (rule resist_rescaled_ok)
  have ok2: "weights_ok ?h2" using ok1 by (rule accommodate_rescaled_ok)
  have ok3: "weights_ok (normalized h)"
    unfolding normalized_def using ok2 by (rule retreat_rescaled_ok)
  have s: "weight_sum h \<noteq> 0" "weight_sum ?h1 \<noteq> 0" "weight_sum ?h2 \<noteq> 0"
    using assms ok1 ok2 by (simp_all add: weights_ok_def)
  have "normalize_weights h = Inr (normalized h)"
    by (simp add: normalize_weights_def normalized_def rescale_resist_value [OF s(1)]
        rescale_accommodate_value [OF s(2)] rescale_retreat_value [OF s(3)])
  then show ?thesis using ok3 by simp
qed

lemma normalized_kept:
  "observed_kept h (normalized h) \<and> decided_kept h (normalized h)
   \<and> p_action (normalized h) = p_action h"
  by (simp add: normalized_def retreat_rescaled_def accommodate_rescaled_def resist_rescaled_def
      observed_kept_def identity_kept_def decided_kept_def)

lemma normalized_p_resist_zero: "p_resist h = 0 \<Longrightarrow> p_resist (normalized h) = 0"
  by (simp add: normalized_def retreat_rescaled_def accommodate_rescaled_def resist_rescaled_def)

lemma escalate_ladder:
  assumes "v = 0 \<or> v = 1 \<or> v = 1.5 \<or> v = 2"
  shows "(escalate v = 0 \<or> escalate v = 1 \<or> escalate v = 1.5 \<or> escalate v = 2)
     \<and> v \<le> escalate v"
  using assms by (auto simp: escalate_def)

lemma act_kept:
  "observed_kept h (act m x h) \<and> p_action (act m x h) = p_action h
   \<and> p_resist (act m x h) = p_resist h \<and> p_accommodate (act m x h) = p_accommodate h
   \<and> p_retreat (act m x h) = p_retreat h"
  by (simp add: act_def observed_kept_def identity_kept_def)

lemma act_ladder:
  "(resistance (act m x h) = resistance h
      \<or> resistance (act m x h) = escalate (resistance h))
   \<and> (accommodation (act m x h) = accommodation h
      \<or> accommodation (act m x h) = escalate (accommodation h))
   \<and> (retreated h \<longrightarrow> retreated (act m x h))"
  by (simp add: act_def)

lemma weighted_nonneg:
  assumes "household_ok h" "0 \<le> accommodation_incentive m" "0 \<le> retreat_incentive m"
  shows "0 \<le> p_resist (weighted m h) \<and> 0 \<le> p_accommodate (weighted m h)
     \<and> 0 \<le> p_retreat (weighted m h) \<and> 0 < p_action (weighted m h)"
proof -
  have "0 \<le> retreat_weight m h"
    using assms by (intro retreat_weight_nonneg) (simp_all add: household_ok_def)
  moreover have "1 / 10 \<le> p_action (set_p_action h)"
    using assms by (intro set_p_action_lower) (simp add: household_ok_def)
  ultimately show ?thesis
    using assms
    by (simp add: weighted_p_resist weighted_p_accommodate weighted_p_retreat
        weighted_p_action household_ok_def)
qed

lemma weighted_weights_ok:
  assumes "household_ok h" "0 \<le> accommodation_incentive m" "0 \<le> retreat_incentive m"
    "weight_sum (weighted m h) \<noteq> 0"
  shows "weights_ok (weighted m h)"
  using weighted_nonneg [OF assms(1-3)] assms(4)
  by (simp add: weights_ok_def weight_sum_def)

lemma make_decision_decided:
  assumes "household_ok h" "0 \<le> accommodation_incentive m" "0 \<le> retreat_incentive m"
  shows "make_decision m x h = Inr (decided m x h)"
proof (cases "weight_sum (weighted m h) = 0")
  case True
  then show ?thesis by (simp add: make_decision_def raw_weights_weighted decided_def)
next
  case False
  then have "normalize_weights (weighted m h) = Inr (normalized (weighted m h))"
    using normalize_total [OF weighted_weights_ok [OF assms]] by simp
  then show ?thesis
    using False by (simp add: make_decision_def raw_weights_weighted decided_def)
qed

lemma decided_kept: "observed_kept h (decided m x h)"
proof -
  have "observed_kept h (weighted m h)" using weighted_kept by blast
  moreover have "observed_kept (weighted m h) (normalized (weighted m h))"
    using normalized_kept by blast
  moreover have "observed_kept (normalized (weighted m h)) (act m x (normalized (weighted m h)))"
    using act_kept by blast
  ultimately show ?thesis
    by (simp add: decided_def observed_kept_def identity_kept_def)
qed

lemma decided_ladder:
  "(resistance (decided m x h) = resistance h
      \<or> resistance (decided m x h) = escalate (resistance h))
   \<and> (accommodation (decided m x h) = accommodation h
      \<or> accommodation (decided m x h) = escalate (accommodation h))
   \<and> (retreated h \<longrightarrow> retreated (decided m x h))"
proof -
  let ?n = "normalized (weighted m h)"
  have "decided_kept h (weighted m h)" using weighted_kept by blast
  moreover have "decided_kept (weighted m h) ?n" using normalized_kept by blast
  ultimately have k: "resistance ?n = resistance h" "accommodation ?n = accommodation h"
    "retreated ?n = retreated h" "resistance (weighted m h) = resistance h"
    "accommodation (weighted m h) = accommodation h" "retreated (weighted m h) = retreated h"
    by (simp_all add: decided_kept_def)
  show ?thesis
    using act_ladder [of m x ?n] by (simp add: decided_def k)
qed

lemma decided_levels:
  assumes "household_ok h"
  shows "(resistance (decided m x h) = 0 \<or> resistance (decided m x h) = 1
        \<or> resistance (decided m x h) = 1.5 \<or> resistance (decided m x h) = 2)
     \<and> (accommodation (decided m x h) = 0 \<or> accommodation (decided m x h) = 1
        \<or> accommodation (decided m x h) = 1.5 \<or> accommodation (decided m x h) = 2)
     \<and> resistance h \<le> resistance (decided m x h)
     \<and> accommodation h \<le> accommodation (decided m x h)"
proof -
  let ?d = "decided m x h"
  have r: "resistance h = 0 \<or> resistance h = 1 \<or> resistance h = 1.5 \<or> resistance h = 2"
    and a: "accommodation h = 0 \<or> accommodation h = 1 \<or> accommodation h = 1.5
      \<or> accommodation h = 2"
    using assms by (simp_all add: household_ok_def)
  note er = escalate_ladder [OF r] and ea = escalate_ladder [OF a]
  have lr: "resistance ?d = resistance h \<or> resistance ?d = escalate (resistance h)"
    and la: "accommodation ?d = accommodation h \<or> accommodation ?d = escalate (accommodation h)"
    using decided_ladder [of m x h] by blast+
  from lr have "(resistance ?d = 0 \<or> resistance ?d = 1 \<or> resistance ?d = 1.5
      \<or> resistance ?d = 2) \<and> resistance h \<le> resistance ?d"
  proof
    assume "resistance ?d = resistance h" then show ?thesis using r by simp
  next
    assume "resistance ?d = escalate (resistance h)" then show ?thesis using er by simp
  qed
  moreover from la have "(accommodation ?d = 0 \<or> accommodation ?d = 1
      \<or> accommodation ?d = 1.5 \<or> accommodation ?d = 2)
      \<and> accommodation h \<le> accommodation ?d"
  proof
    assume "accommodation ?d = accommodation h" then show ?thesis using a by simp
  next
    assume "accommodation ?d = escalate (accommodation h)" then show ?thesis using ea by simp
  qed
  ultimately show ?thesis by blast
qed

lemma decided_ok:
  assumes "household_ok h" "0 \<le> accommodation_incentive m" "0 \<le> retreat_incentive m"
  shows "household_ok (decided m x h)"
proof -
  let ?d = "decided m x h"
  have k: "flood_damage ?d = flood_damage h" "attachment ?d = attachment h"
    using decided_kept [of h m x] by (simp_all add: observed_kept_def)
  have w: "0 \<le> p_resist ?d \<and> 0 \<le> p_accommodate ?d \<and> 0 \<le> p_retreat ?d"
  proof (cases "weight_sum (weighted m h) = 0")
    case True
    then show ?thesis using weighted_nonneg [OF assms] by (simp add: decided_def)
  next
    case False
    then have "weights_ok (normalized (weighted m h))"
      using normalize_total [OF weighted_weights_ok [OF assms]] by simp
    then show ?thesis using False act_kept [of "normalized (weighted m h)" m x]
      by (simp add: decided_def weights_ok_def)
  qed
  have f: "0 \<le> flood_damage ?d" "0 \<le> attachment ?d"
    using assms(1) by (simp_all add: k household_ok_def)
  show ?thesis
    unfolding household_ok_def [of ?d]
    using decided_levels [OF assms(1), of m x] w f by blast
qed

lemma attachment_of_nonneg: "0 \<le> attachment_of st cs"
  by (simp add: attachment_of_def)

lemma household_step_kept:
  "identity_kept h (household_step s n h) \<and> decided_kept h (household_step s n h)
   \<and> p_resist (household_step s n h) = p_resist h
   \<and> p_accommodate (household_step s n h) = p_accommodate h
   \<and> p_retreat (household_step s n h) = p_retreat h"
  by (simp add: household_step_def apply_damage_def apply_inundation_def
      calculate_attachment_def calculate_adaptive_capacity_def Let_def
      identity_kept_def decided_kept_def)

lemma household_step_attachment:
  "attachment (household_step s n h) = attachment_of (agents s) (connections h)"
  by (simp add: household_step_def apply_damage_def apply_inundation_def
      calculate_attachment_def calculate_adaptive_capacity_def Let_def)

lemma apply_damage_nonneg:
  assumes "0 \<le> flood_damage h" "accommodation h \<le> 2"
  shows "0 \<le> flood_damage (apply_damage s h)"
proof -
  have "0 \<le> max 0 (storm_surge s + inundation h) * (1 - accommodation h * 0.05)"
    using assms by (intro mult_nonneg_nonneg) auto
  then show ?thesis using assms by (simp add: apply_damage_def Let_def)
qed

lemma household_step_damage:
  assumes "0 \<le> flood_damage h" "accommodation h \<le> 2"
  shows "0 \<le> flood_damage (household_step s n h)"
  unfolding household_step_def
  by (rule apply_damage_nonneg)
    (use assms in \<open>simp_all add: apply_inundation_def calculate_attachment_def
      calculate_adaptive_capacity_def Let_def\<close>)

lemma household_step_ok:
  assumes "household_ok h"
  shows "household_ok (household_step s n h)"
proof -
  let ?h = "household_step s n h"
  have a: "accommodation h \<le> 2" using assms by (auto simp: household_ok_def)
  have f: "0 \<le> flood_damage ?h"
    using assms a by (intro household_step_damage) (simp_all add: household_ok_def)
  have k: "resistance ?h = resistance h" "accommodation ?h = accommodation h"
    "p_resist ?h = p_resist h" "p_accommodate ?h = p_accommodate h" "p_retreat ?h = p_retreat h"
    using household_step_kept [of h s n] by (simp_all add: decided_kept_def)
  show ?thesis
    unfolding household_ok_def [of ?h]
    using assms f by (simp add: k household_step_attachment attachment_of_nonneg household_ok_def)
qed

text \<open>Both passes of the scheduler change the store and nothing else.\<close>

lemma observe_agent_frame: "(observe_agent noise b m)\<lparr>agents := st\<rparr> = m\<lparr>agents := st\<rparr>"
  by (simp add: observe_agent_def)

lemma observe_fold_frame: "\<exists>st. fold (observe_agent noise) as m = m\<lparr>agents := st\<rparr>"
proof (induction as arbitrary: m)
  case Nil
  have "m = m\<lparr>agents := agents m\<rparr>" by simp
  then show ?case by (metis fold_simps(1))
next
  case (Cons b bs)
  obtain st where
    "fold (observe_agent noise) bs (observe_agent noise b m)
       = (observe_agent noise b m)\<lparr>agents := st\<rparr>"
    using Cons.IH [of "observe_agent noise b m"] by blast
  then show ?case by (intro exI [of _ st]) (simp add: observe_agent_frame)
qed

lemma observe_all_frame: "\<exists>st. observe_all noise m = m\<lparr>agents := st\<rparr>"
  unfolding observe_all_def by (rule observe_fold_frame)

lemma observe_fold_rel:
  assumes refl: "\<And>h. R h h"
    and trans: "\<And>h1 h2 h3. R h1 h2 \<Longrightarrow> R h2 h3 \<Longrightarrow> R h1 h3"
    and one: "\<And>s n h. R h (household_step s n h)"
  shows "R (agents m a) (agents (fold (observe_agent noise) as m) a)"
proof (induction as arbitrary: m)
  case Nil
  show ?case by (simp add: refl)
next
  case (Cons b bs)
  have "R (agents m a) (agents (observe_agent noise b m) a)"
    by (simp add: observe_agent_def refl one)
  moreover have "R (agents (observe_agent noise b m) a)
      (agents (fold (observe_agent noise) bs (observe_agent noise b m)) a)"
    by (rule Cons.IH)
  ultimately have "R (agents m a)
      (agents (fold (observe_agent noise) bs (observe_agent noise b m)) a)"
    by (rule trans)
  then show ?case by simp
qed

lemma observe_all_rel:
  assumes "\<And>h. R h h" "\<And>h1 h2 h3. R h1 h2 \<Longrightarrow> R h2 h3 \<Longrightarrow> R h1 h3"
    "\<And>s n h. R h (household_step s n h)"
  shows "R (agents m a) (agents (observe_all noise m) a)"
  unfolding observe_all_def using assms by (rule observe_fold_rel)

lemma advance_all_frame:
  "advance_all xs as m = Inr m' \<Longrightarrow> \<exists>st. m' = m\<lparr>agents := st\<rparr>"
proof (induction as arbitrary: m)
  case Nil
  then have "m' = m\<lparr>agents := agents m\<rparr>" by simp
  then show ?case by blast
next
  case (Cons b bs)
  then obtain h where h: "make_decision m (xs b) (agents m b) = Inr h"
    and r: "advance_all xs bs (m\<lparr>agents := (agents m)(b := h)\<rparr>) = Inr m'"
    by (auto split: sum.splits)
  obtain st where "m' = (m\<lparr>agents := (agents m)(b := h)\<rparr>)\<lparr>agents := st\<rparr>"
    using Cons.IH [OF r] by blast
  then show ?case by (intro exI [of _ st]) simp
qed

lemma advance_all_rel:
  assumes refl: "\<And>h. R h h"
    and trans: "\<And>h1 h2 h3. R h1 h2 \<Longrightarrow> R h2 h3 \<Longrightarrow> R h1 h3"
    and one: "\<And>st x h h'. make_decision (m\<lparr>agents := st\<rparr>) x h = Inr h' \<Longrightarrow> R h h'"
    and run: "advance_all xs as m = Inr m'"
  shows "R (agents m a) (agents m' a)"
  using run one
proof (induction as arbitrary: m)
  case Nil
  then show ?case by (simp add: refl)
next
  case (Cons b bs)
  from Cons.prems(1) obtain h where h: "make_decision m (xs b) (agents m b) = Inr h"
    and r: "advance_all xs bs (m\<lparr>agents := (agents m)(b := h)\<rparr>) = Inr m'"
    by (auto split: sum.splits)
  let ?m1 = "m\<lparr>agents := (agents m)(b := h)\<rparr>"
  have "make_decision (m\<lparr>agents := agents m\<rparr>) (xs b) (agents m b) = Inr h" using h by simp
  then have hb: "R (agents m b) h" by (rule Cons.prems(2))
  have first: "R (agents m a) (agents ?m1 a)" using hb by (simp add: refl)
  have "R (agents ?m1 a) (agents m' a)"
  proof (rule Cons.IH [OF r])
    fix st x k k'
    assume "make_decision (?m1\<lparr>agents := st\<rparr>) x k = Inr k'"
    then have "make_decision (m\<lparr>agents := st\<rparr>) x k = Inr k'" by simp
    then show "R k k'" by (rule Cons.prems(2))
  qed
  then show ?case using first trans by blast
qed

lemma advance_all_total:
  assumes "\<forall>a\<in>set as. household_ok (agents m a)"
    "0 \<le> accommodation_incentive m" "0 \<le> retreat_incentive m"
  shows "\<exists>m'. advance_all xs as m = Inr m'"
  using assms
proof (induction as arbitrary: m)
  case Nil
  show ?case by simp
next
  case (Cons b bs)
  let ?h = "decided m (xs b) (agents m b)"
  let ?m1 = "m\<lparr>agents := (agents m)(b := ?h)\<rparr>"
  have ok: "household_ok (agents m b)" using Cons.prems(1) by simp
  have d: "make_decision m (xs b) (agents m b) = Inr ?h"
    using ok Cons.prems(2,3) by (rule make_decision_decided)
  have "household_ok ?h" using ok Cons.prems(2,3) by (rule decided_ok)
  then have "\<forall>a\<in>set bs. household_ok (agents ?m1 a)" using Cons.prems(1) by simp
  moreover have "0 \<le> accommodation_incentive ?m1" "0 \<le> retreat_incentive ?m1"
    using Cons.prems(2,3) by simp_all
  ultimately obtain m' where "advance_all xs bs ?m1 = Inr m'"
    using Cons.IH [of ?m1] by blast
  then show ?case using d by simp
qed

lemma reap_static:
  "agents (reap a m) = agents m \<and> agent_list (reap a m) = agent_list m
   \<and> community_resistance (reap a m) = community_resistance m
   \<and> accommodation_incentive (reap a m) = accommodation_incentive m
   \<and> retreat_incentive (reap a m) = retreat_incentive m
   \<and> p_adapt (reap a m) = p_adapt m"
  by (simp add: reap_def)

lemma reap_roster:
  assumes "distinct (schedule m)"
  shows "distinct (schedule (reap a m))
     \<and> set (schedule (reap a m))
         = {b \<in> set (schedule m). \<not> (retreated (agents m b) \<and> b = a)}
     \<and> num_agents (reap a m) - int (length (schedule (reap a m)))
         = num_agents m - int (length (schedule m))
     \<and> num_agents (reap a m) \<le> num_agents m"
proof (cases "retreated (agents m a) \<and> a \<in> set (schedule m)")
  case True
  then have l: "length (remove1 a (schedule m)) = length (schedule m) - 1"
    by (simp add: length_remove1)
  have "schedule m \<noteq> []" using True by auto
  then have "int (length (schedule m) - 1) = int (length (schedule m)) - 1"
    by (cases "schedule m") simp_all
  then show ?thesis using True assms l by (auto simp: reap_def)
next
  case False
  then show ?thesis using assms by (auto simp: reap_def)
qed

lemma reap_grid:
  assumes "grid_ok m" "distinct (schedule m)"
  shows "grid_ok (reap a m)"
proof (cases "retreated (agents m a) \<and> a \<in> set (schedule m)")
  case True
  show ?thesis
    unfolding grid_ok_def
  proof (intro allI impI)
    fix p b
    assume g: "grid (reap a m) p = Some b"
    have p: "p \<noteq> (pos_x (agents m a), pos_y (agents m a))" and g0: "grid m p = Some b"
      using g True by (auto simp: reap_def split: if_splits)
    have b: "b \<in> set (schedule m)" "p = (pos_x (agents m b), pos_y (agents m b))"
      using assms(1) g0 unfolding grid_ok_def by blast+
    then have "b \<noteq> a" using p by auto
    then show "b \<in> set (schedule (reap a m))
        \<and> p = (pos_x (agents (reap a m) b), pos_y (agents (reap a m) b))"
      using b True by (simp add: reap_def)
  qed
next
  case False
  then have "reap a m = m" unfolding reap_def by (rule if_not_P)
  then show ?thesis using assms by simp
qed

lemma fold_reap:
  assumes "distinct (schedule m)" "grid_ok m"
  shows "agents (fold reap as m) = agents m \<and> agent_list (fold reap as m) = agent_list m
     \<and> community_resistance (fold reap as m) = community_resistance m
     \<and> accommodation_incentive (fold reap as m) = accommodation_incentive m
     \<and> retreat_incentive (fold reap as m) = retreat_incentive m
     \<and> p_adapt (fold reap as m) = p_adapt m
     \<and> distinct (schedule (fold reap as m)) \<and> grid_ok (fold reap as m)
     \<and> set (schedule (fold reap as m))
         = {b \<in> set (schedule m). \<not> (retreated (agents m b) \<and> b \<in> set as)}
     \<and> num_agents (fold reap as m) - int (length (schedule (fold reap as m)))
         = num_agents m - int (length (schedule m))
     \<and> num_agents (fold reap as m) \<le> num_agents m"
  using assms
proof (induction as arbitrary: m)
  case Nil
  then show ?case by simp
next
  case (Cons a as)
  note s = reap_static [of a m] and r = reap_roster [OF Cons.prems(1), of a]
  note g = reap_grid [OF Cons.prems(2,1), of a]
  have d: "distinct (schedule (reap a m))" using r by blast
  note ih = Cons.IH [OF d g]
  have "set (schedule (fold reap as (reap a m)))
      = {b \<in> set (schedule m). \<not> (retreated (agents m b) \<and> b \<in> set (a # as))}"
    using ih r s by auto
  moreover have "num_agents (fold reap as (reap a m))
        - int (length (schedule (fold reap as (reap a m))))
      = num_agents m - int (length (schedule m))"
    using ih r by simp
  moreover have "num_agents (fold reap as (reap a m)) \<le> num_agents m"
    using ih r by linarith
  ultimately show ?case using ih s by simp
qed

lemma agent_step_refl: "agent_step h h"
  by (simp add: agent_step_def identity_kept_def)

lemma agent_step_trans:
  assumes "agent_step h1 h2" "agent_step h2 h3"
  shows "agent_step h1 h3"
  using assms unfolding agent_step_def identity_kept_def by auto

lemma agent_step_observe: "agent_step h (household_step s n h)"
  using household_step_kept [of h s n] household_step_ok [of h s n]
  by (simp add: agent_step_def decided_kept_def)

lemma agent_step_decide:
  assumes "0 \<le> accommodation_incentive m" "0 \<le> retreat_incentive m"
    "make_decision m x h = Inr h'"
  shows "agent_step h h'"
proof -
  have i: "identity_kept h h' \<and> (retreated h \<longrightarrow> retreated h')"
  proof (cases "weight_sum (weighted m h) = 0")
    case True
    then have "h' = weighted m h"
      using assms(3) by (simp add: make_decision_def raw_weights_weighted)
    then show ?thesis using weighted_kept [of h m]
      by (simp add: observed_kept_def decided_kept_def)
  next
    case False
    then obtain h2 where h2: "normalize_weights (weighted m h) = Inr h2" and a: "h' = act m x h2"
      using assms(3) by (auto simp: make_decision_def raw_weights_weighted split: sum.splits)
    have "identity_kept (weighted m h) h2 \<and> retreated h2 = retreated (weighted m h)"
      using h2
      by (auto simp: normalize_weights_def rescale_resist_def rescale_accommodate_def
          rescale_retreat_def py_div_def identity_kept_def split: sum.splits if_splits)
    then show ?thesis using weighted_kept [of h m] act_kept [of h2 m x] act_ladder [of m x h2] a
      by (simp add: observed_kept_def decided_kept_def identity_kept_def)
  qed
  have "household_ok h \<longrightarrow> household_ok h' \<and> resistance h \<le> resistance h'
      \<and> accommodation h \<le> accommodation h'"
  proof
    assume ok: "household_ok h"
    have "h' = decided m x h"
      using make_decision_decided [OF ok assms(1,2), of x] assms(3) by simp
    then show "household_ok h' \<and> resistance h \<le> resistance h'
        \<and> accommodation h \<le> accommodation h'"
      using decided_ok [OF ok assms(1,2), of x] decided_levels [OF ok, of m x] by simp
  qed
  then show ?thesis using i by (simp add: agent_step_def)
qed

lemma staircase_static:
  "agents (staircase x m) = agents m \<and> schedule (staircase x m) = schedule m
   \<and> agent_list (staircase x m) = agent_list m \<and> grid (staircase x m) = grid m
   \<and> num_agents (staircase x m) = num_agents m \<and> p_adapt (staircase x m) = p_adapt m"
  by (simp add: staircase_def)

lemma staircase_incentives:
  assumes "incentives_ok m"
  shows "incentives_ok (staircase x m)
     \<and> community_resistance m \<le> community_resistance (staircase x m)"
  using assms by (simp add: staircase_def incentives_ok_def)

lemma staircase_accommodation:
  assumes "community_resistance m < 3" "0 \<le> p_adapt m"
  shows "accommodation_incentive (staircase x m) = accommodation_incentive m"
proof -
  have "p_adapt m * 0.3 \<le> p_adapt m * 0.6" using assms(2) by simp
  then have "\<not> (\<not> x < p_adapt m * 0.6 \<and> x < p_adapt m * 0.3)" by linarith
  then show ?thesis using assms(1) by (auto simp: staircase_def)
qed

lemma decrements_static:
  "agents (decrements r1 r2 m) = agents m \<and> schedule (decrements r1 r2 m) = schedule m
   \<and> agent_list (decrements r1 r2 m) = agent_list m \<and> grid (decrements r1 r2 m) = grid m
   \<and> num_agents (decrements r1 r2 m) = num_agents m
   \<and> p_adapt (decrements r1 r2 m) = p_adapt m
   \<and> community_resistance (decrements r1 r2 m) = community_resistance m"
  by (simp add: decrements_def Let_def)

lemma decrements_incentives:
  assumes "incentives_ok m"
  shows "incentives_ok (decrements r1 r2 m)
     \<and> accommodation_incentive (decrements r1 r2 m) \<le> accommodation_incentive m"
  using assms by (simp add: decrements_def Let_def incentives_ok_def)

lemma set_p_adapt_static:
  "agents (set_p_adapt m) = agents m \<and> schedule (set_p_adapt m) = schedule m
   \<and> agent_list (set_p_adapt m) = agent_list m \<and> grid (set_p_adapt m) = grid m
   \<and> num_agents (set_p_adapt m) = num_agents m
   \<and> community_resistance (set_p_adapt m) = community_resistance m
   \<and> accommodation_incentive (set_p_adapt m) = accommodation_incentive m
   \<and> retreat_incentive (set_p_adapt m) = retreat_incentive m"
  by (simp add: set_p_adapt_def Let_def)

lemma set_p_adapt_lower:
  assumes "0 < num_agents m" "\<forall>a\<in>set (schedule m). 0 \<le> flood_damage (agents m a)"
  shows "1 / 10 \<le> p_adapt (set_p_adapt m)"
proof -
  define d where "d = min 10 (total_damage m / real_of_int (num_agents m))"
  define i where "i = max 0 (min (total_inundation m / real_of_int (num_agents m)) 0.5)"
  have "0 \<le> total_damage m"
    unfolding total_damage_def using assms(2) by (intro sum_list_nonneg) auto
  then have "0 \<le> total_damage m / real_of_int (num_agents m)" using assms(1) by simp
  then have d: "0 \<le> d" "d \<le> 10" by (simp_all add: d_def)
  have i: "0 \<le> i" "i \<le> 1" by (simp_all add: i_def)
  have "p_adapt (set_p_adapt m) = 9 / 100 * d + 18 / 10 * i - 18 / 100 * d * i + 1 / 10"
    by (simp add: set_p_adapt_def Let_def d_def i_def)
  then show ?thesis using saturating_curve_lower [OF d i] by simp
qed

lemma community_adaptation_static:
  "agents (community_adaptation x r1 r2 m) = agents m
   \<and> schedule (community_adaptation x r1 r2 m) = schedule m
   \<and> agent_list (community_adaptation x r1 r2 m) = agent_list m
   \<and> grid (community_adaptation x r1 r2 m) = grid m
   \<and> num_agents (community_adaptation x r1 r2 m) = num_agents m"
  using decrements_static [of r1 r2 "staircase x (set_p_adapt m)"]
    staircase_static [of x "set_p_adapt m"] set_p_adapt_static [of m]
  by (simp add: community_adaptation_def)

lemma set_p_adapt_incentives: "incentives_ok (set_p_adapt m) = incentives_ok m"
  using set_p_adapt_static [of m] by (simp add: incentives_ok_def)

lemma community_adaptation_incentives:
  assumes "incentives_ok m"
  shows "incentives_ok (community_adaptation x r1 r2 m)
     \<and> community_resistance m \<le> community_resistance (community_adaptation x r1 r2 m)"
proof (cases "0 < num_agents m")
  case True
  let ?p = "set_p_adapt m"
  have p: "incentives_ok ?p" using assms by (simp add: set_p_adapt_incentives)
  note s = staircase_incentives [OF p, of x]
  have "incentives_ok (decrements r1 r2 (staircase x ?p))"
    using s decrements_incentives by blast
  moreover have "community_resistance m \<le> community_resistance (decrements r1 r2 (staircase x ?p))"
    using s decrements_static [of r1 r2 "staircase x ?p"] set_p_adapt_static [of m] by simp
  ultimately show ?thesis using True by (simp add: community_adaptation_def)
next
  case False
  then show ?thesis using assms by (simp add: community_adaptation_def)
qed

lemma before_agents_static:
  "agents (before_agents d m) = agents m \<and> schedule (before_agents d m) = schedule m
   \<and> agent_list (before_agents d m) = agent_list m \<and> grid (before_agents d m) = grid m
   \<and> num_agents (before_agents d m) = num_agents m"
  unfolding before_agents_def
  using community_adaptation_static
    [of "x_adapt d" "r_accommodation d" "r_retreat d"
      "(calculate_inundation m)\<lparr>storm_surge := max 0 (- ln (2 * aep d) / 1.164)\<rparr>"]
  by (simp add: calculate_inundation_def)

lemma before_agents_incentives:
  assumes "incentives_ok m"
  shows "incentives_ok (before_agents d m)
     \<and> community_resistance m \<le> community_resistance (before_agents d m)"
proof -
  let ?m0 = "(calculate_inundation m)\<lparr>storm_surge := max 0 (- ln (2 * aep d) / 1.164)\<rparr>"
  have "incentives_ok ?m0" "community_resistance ?m0 = community_resistance m"
    using assms by (simp_all add: incentives_ok_def calculate_inundation_def)
  then show ?thesis
    unfolding before_agents_def
    using community_adaptation_incentives [of ?m0 "x_adapt d" "r_accommodation d" "r_retreat d"]
    by simp
qed

lemma step_Inr:
  assumes "step d m = Inr m'"
  shows "0 < 2 * aep d
     \<and> (\<exists>m4. advance_all (x_decision d)
                (schedule (observe_all (capacity_noise d) (before_agents d m)))
                (observe_all (capacity_noise d) (before_agents d m)) = Inr m4
            \<and> m' = (fold reap (agent_list m4) m4)
                     \<lparr>tick := tick (fold reap (agent_list m4) m4) + 1\<rparr>)"
  using assms
  by (auto simp: step_def calculate_storm_surge_def schedule_step_def before_agents_def Let_def
      split: sum.splits if_splits)

lemma observe_fold_untouched:
  "a \<notin> set as \<Longrightarrow> agents (fold (observe_agent noise) as m) a = agents m a"
  by (induction as arbitrary: m) (simp_all add: observe_agent_def)

lemma advance_all_untouched:
  "advance_all xs as m = Inr m' \<Longrightarrow> a \<notin> set as \<Longrightarrow> agents m' a = agents m a"
proof (induction as arbitrary: m)
  case Nil
  then show ?case by simp
next
  case (Cons b bs)
  from Cons.prems(1) obtain h where
    r: "advance_all xs bs (m\<lparr>agents := (agents m)(b := h)\<rparr>) = Inr m'"
    by (auto split: sum.splits)
  have "agents m' a = agents (m\<lparr>agents := (agents m)(b := h)\<rparr>) a"
    using Cons.IH [OF r] Cons.prems(2) by simp
  then show ?case using Cons.prems(2) by simp
qed

lemma fold_reap_agents: "agents (fold reap as m) = agents m"
  by (induction as arbitrary: m) (simp_all add: reap_static)

lemma fold_reap_smaller:
  "num_agents (fold reap as m) \<le> num_agents m \<and> set (schedule (fold reap as m)) \<subseteq> set (schedule m)"
proof (induction as arbitrary: m)
  case Nil
  show ?case by simp
next
  case (Cons a as)
  have "num_agents (reap a m) \<le> num_agents m \<and> set (schedule (reap a m)) \<subseteq> set (schedule m)"
    using set_remove1_subset [of a "schedule m"] by (simp add: reap_def)
  then show ?case using Cons.IH [of "reap a m"] by auto
qed

text \<open>The parts of a year, named.\<close>

lemma step_parts:
  assumes "step d m = Inr m'"
  obtains mo m4 where
    "mo = observe_all (capacity_noise d) (before_agents d m)"
    "advance_all (x_decision d) (schedule m) mo = Inr m4"
    "m' = (fold reap (agent_list m) m4)\<lparr>tick := tick (fold reap (agent_list m) m4) + 1\<rparr>"
    "schedule mo = schedule m" "agent_list mo = agent_list m" "grid mo = grid m"
    "num_agents mo = num_agents m"
    "community_resistance mo = community_resistance (before_agents d m)"
    "accommodation_incentive mo = accommodation_incentive (before_agents d m)"
    "retreat_incentive mo = retreat_incentive (before_agents d m)"
    "schedule m4 = schedule m" "agent_list m4 = agent_list m" "grid m4 = grid m"
    "num_agents m4 = num_agents m"
    "community_resistance m4 = community_resistance (before_agents d m)"
    "accommodation_incentive m4 = accommodation_incentive (before_agents d m)"
    "retreat_incentive m4 = retreat_incentive (before_agents d m)"
proof -
  let ?mb = "before_agents d m"
  let ?mo = "observe_all (capacity_noise d) ?mb"
  obtain st where st: "?mo = ?mb\<lparr>agents := st\<rparr>"
    using observe_all_frame by blast
  note b = before_agents_static [of d m]
  have o: "schedule ?mo = schedule m" "agent_list ?mo = agent_list m" "grid ?mo = grid m"
    "num_agents ?mo = num_agents m"
    "community_resistance ?mo = community_resistance ?mb"
    "accommodation_incentive ?mo = accommodation_incentive ?mb"
    "retreat_incentive ?mo = retreat_incentive ?mb"
    by (simp_all add: st b)
  obtain m4 where a: "advance_all (x_decision d) (schedule ?mo) ?mo = Inr m4"
    and m': "m' = (fold reap (agent_list m4) m4)\<lparr>tick := tick (fold reap (agent_list m4) m4) + 1\<rparr>"
    using step_Inr [OF assms] by blast
  obtain st' where st': "m4 = ?mo\<lparr>agents := st'\<rparr>"
    using advance_all_frame [OF a] by blast
  have f: "schedule m4 = schedule m" "agent_list m4 = agent_list m" "grid m4 = grid m"
    "num_agents m4 = num_agents m"
    "community_resistance m4 = community_resistance ?mb"
    "accommodation_incentive m4 = accommodation_incentive ?mb"
    "retreat_incentive m4 = retreat_incentive ?mb"
    by (simp_all add: st' o)
  show thesis
    by (rule that [of ?mo m4]) (use a m' o f in simp_all)
qed

lemma step_agent_step:
  assumes "step d m = Inr m'" "incentives_ok m"
  shows "agent_step (agents m a) (agents m' a)"
proof -
  from assms(1) obtain mo m4 where
    mo: "mo = observe_all (capacity_noise d) (before_agents d m)"
    and a: "advance_all (x_decision d) (schedule m) mo = Inr m4"
    and m': "m' = (fold reap (agent_list m) m4)\<lparr>tick := tick (fold reap (agent_list m) m4) + 1\<rparr>"
    and i: "accommodation_incentive mo = accommodation_incentive (before_agents d m)"
      "retreat_incentive mo = retreat_incentive (before_agents d m)"
    by (rule step_parts)
  have ok: "incentives_ok (before_agents d m)"
    using before_agents_incentives [OF assms(2)] by blast
  have "agent_step (agents (before_agents d m) a) (agents mo a)"
    unfolding mo
    by (rule observe_all_rel) (blast intro: agent_step_refl agent_step_trans agent_step_observe)+
  then have 1: "agent_step (agents m a) (agents mo a)"
    using before_agents_static [of d m] by simp
  have 2: "agent_step (agents mo a) (agents m4 a)"
  proof (rule advance_all_rel [OF _ _ _ a])
    fix st x h h'
    assume "make_decision (mo\<lparr>agents := st\<rparr>) x h = Inr h'"
    moreover have "0 \<le> accommodation_incentive (mo\<lparr>agents := st\<rparr>)"
      "0 \<le> retreat_incentive (mo\<lparr>agents := st\<rparr>)"
      using ok i by (simp_all add: incentives_ok_def)
    ultimately show "agent_step h h'" by (rule agent_step_decide [rotated 2])
  qed (blast intro: agent_step_refl agent_step_trans)+
  have "agents m' a = agents m4 a"
    unfolding m' by (simp add: fold_reap_agents)
  then show ?thesis using agent_step_trans [OF 1 2] by simp
qed

lemma step_untouched:
  assumes "step d m = Inr m'" "a \<notin> set (schedule m)"
  shows "agents m' a = agents m a"
proof -
  from assms(1) obtain mo m4 where
    mo: "mo = observe_all (capacity_noise d) (before_agents d m)"
    and a: "advance_all (x_decision d) (schedule m) mo = Inr m4"
    and m': "m' = (fold reap (agent_list m) m4)\<lparr>tick := tick (fold reap (agent_list m) m4) + 1\<rparr>"
    by (rule step_parts)
  have "agents mo a = agents (before_agents d m) a"
    unfolding mo observe_all_def
    by (rule observe_fold_untouched) (use assms(2) before_agents_static [of d m] in simp)
  moreover have "agents m4 a = agents mo a"
    using a assms(2) by (rule advance_all_untouched)
  moreover have "agents m' a = agents m4 a"
    unfolding m' by (simp add: fold_reap_agents)
  ultimately show ?thesis using before_agents_static [of d m] by simp
qed

lemma step_community:
  assumes "step d m = Inr m'"
  shows "community_resistance m' = community_resistance (before_agents d m)
     \<and> accommodation_incentive m' = accommodation_incentive (before_agents d m)
     \<and> retreat_incentive m' = retreat_incentive (before_agents d m)
     \<and> agent_list m' = agent_list m
     \<and> num_agents m' \<le> num_agents m \<and> set (schedule m') \<subseteq> set (schedule m)"
proof -
  from assms(1) obtain mo m4 where
    m': "m' = (fold reap (agent_list m) m4)\<lparr>tick := tick (fold reap (agent_list m) m4) + 1\<rparr>"
    and f: "schedule m4 = schedule m" "agent_list m4 = agent_list m"
      "num_agents m4 = num_agents m"
      "community_resistance m4 = community_resistance (before_agents d m)"
      "accommodation_incentive m4 = accommodation_incentive (before_agents d m)"
      "retreat_incentive m4 = retreat_incentive (before_agents d m)"
    by (rule step_parts)
  have s: "community_resistance (fold reap as m4) = community_resistance m4
      \<and> accommodation_incentive (fold reap as m4) = accommodation_incentive m4
      \<and> retreat_incentive (fold reap as m4) = retreat_incentive m4
      \<and> agent_list (fold reap as m4) = agent_list m4" for as
    by (induction as arbitrary: m4) (simp_all add: reap_static)
  show ?thesis
    unfolding m' using s [of "agent_list m"] fold_reap_smaller [of "agent_list m" m4] f by simp
qed

lemma step_model_ok:
  assumes "step d m = Inr m'" "model_ok m"
  shows "model_ok m'"
proof -
  have inc: "incentives_ok m" and ag: "agents_ok m" and ro: "roster_ok m"
    using assms(2) by (simp_all add: model_ok_def)
  from assms(1) obtain mo m4 where
    m': "m' = (fold reap (agent_list m) m4)\<lparr>tick := tick (fold reap (agent_list m) m4) + 1\<rparr>"
    and f: "schedule m4 = schedule m" "agent_list m4 = agent_list m" "grid m4 = grid m"
      "num_agents m4 = num_agents m"
    by (rule step_parts)
  note rel = step_agent_step [OF assms(1) inc]
  have ag4: "agents m' = agents m4" unfolding m' by (simp add: fold_reap_agents)
  have d4: "distinct (schedule m4)" using ro f by (simp add: roster_ok_def)
  have g4: "grid_ok m4"
    unfolding grid_ok_def
  proof (intro allI impI)
    fix p a
    assume "grid m4 p = Some a"
    then have "grid m p = Some a" using f by simp
    moreover have "grid_ok m" using ro by (simp add: roster_ok_def)
    ultimately have "a \<in> set (schedule m) \<and> p = (pos_x (agents m a), pos_y (agents m a))"
      unfolding grid_ok_def by blast
    moreover have "identity_kept (agents m a) (agents m4 a)"
      using rel [of a] ag4 by (simp add: agent_step_def)
    ultimately show "a \<in> set (schedule m4)
        \<and> p = (pos_x (agents m4 a), pos_y (agents m4 a))"
      using f by (simp add: identity_kept_def)
  qed
  note fr = fold_reap [OF d4 g4, of "agent_list m"]
  have 1: "agents_ok m'"
    unfolding agents_ok_def
  proof
    fix a
    assume "a \<in> set (agent_list m')"
    then have "a \<in> set (agent_list m)" using step_community [OF assms(1)] by simp
    then have "household_ok (agents m a)" "unique_id (agents m a) = a"
      using ag by (simp_all add: agents_ok_def)
    then show "household_ok (agents m' a) \<and> unique_id (agents m' a) = a"
      using rel [of a] by (simp add: agent_step_def identity_kept_def)
  qed
  have 2: "incentives_ok m'"
    using step_community [OF assms(1)] before_agents_incentives [OF inc, of d]
    by (simp add: incentives_ok_def)
  have sub: "set (schedule m) \<subseteq> set (agent_list m)" using ro by (simp add: roster_ok_def)
  have 3: "roster_ok m'"
    unfolding roster_ok_def
  proof (intro conjI)
    show "num_agents m' = int (length (schedule m'))"
      unfolding m' using fr f ro by (simp add: roster_ok_def)
    show "distinct (schedule m')" unfolding m' using fr by simp
    show "set (schedule m') \<subseteq> set (agent_list m')"
      using step_community [OF assms(1)] sub by auto
    show "\<forall>a\<in>set (schedule m'). \<not> retreated (agents m' a)"
    proof
      fix a
      assume "a \<in> set (schedule m')"
      then have "a \<in> set (schedule m4) \<and> \<not> (retreated (agents m4 a) \<and> a \<in> set (agent_list m))"
        unfolding m' using fr by simp
      then show "\<not> retreated (agents m' a)" using sub f ag4 by auto
    qed
    have "grid_ok (fold reap (agent_list m) m4)" using fr by simp
    then show "grid_ok m'" unfolding m' by (simp add: grid_ok_def)
  qed
  show ?thesis using 1 2 3 by (simp add: model_ok_def)
qed

lemma step_total:
  assumes "model_ok m" "0 < aep d"
  shows "\<exists>m'. step d m = Inr m'"
proof -
  let ?mb = "before_agents d m"
  let ?mo = "observe_all (capacity_noise d) ?mb"
  have inc: "incentives_ok ?mb"
    using before_agents_incentives assms(1) by (simp add: model_ok_def)
  obtain st where st: "?mo = ?mb\<lparr>agents := st\<rparr>" using observe_all_frame by blast
  have s: "schedule ?mo = schedule m" by (simp add: st before_agents_static)
  have "\<forall>a\<in>set (schedule ?mo). household_ok (agents ?mo a)"
  proof
    fix a
    assume "a \<in> set (schedule ?mo)"
    then have "household_ok (agents m a)"
      using assms(1) s by (auto simp: model_ok_def roster_ok_def agents_ok_def)
    moreover have "agent_step (agents ?mb a) (agents ?mo a)"
      by (rule observe_all_rel)
        (blast intro: agent_step_refl agent_step_trans agent_step_observe)+
    ultimately show "household_ok (agents ?mo a)"
      using before_agents_static [of d m] by (simp add: agent_step_def)
  qed
  moreover have "0 \<le> accommodation_incentive ?mo" "0 \<le> retreat_incentive ?mo"
    using inc by (simp_all add: st incentives_ok_def)
  ultimately obtain m4 where "advance_all (x_decision d) (schedule ?mo) ?mo = Inr m4"
    using advance_all_total by blast
  then show ?thesis
    using assms(2)
    by (simp add: step_def calculate_storm_surge_def schedule_step_def before_agents_def Let_def)
qed

lemma Household_init_fresh:
  assumes "Household_init i w px py cap = Inr a"
  shows "fresh i a \<and> pos_x a = px \<and> pos_y a = py"
  using assms
  by (auto simp: Household_init_def py_div_def fresh_def household_ok_def split: if_splits)

lemma create_agents_built:
  assumes "create_agents caps i ls m = Inr m'" "built i m"
  shows "built (i + length ls) m' \<and> num_agents m' = num_agents m
     \<and> community_resistance m' = community_resistance m
     \<and> accommodation_incentive m' = accommodation_incentive m
     \<and> retreat_incentive m' = retreat_incentive m
     \<and> network_mode m' = network_mode m \<and> network_parameter m' = network_parameter m"
  using assms
proof (induction ls arbitrary: i m)
  case Nil
  then show ?case by simp
next
  case (Cons l ls)
  let ?px = "int (l div height m)" and ?py = "int (l mod height m)"
  from Cons.prems(1) obtain a where
    a: "Household_init i (width m) ?px ?py (caps i) = Inr a"
    by (auto simp: Let_def split: if_splits sum.splits)
  note fa = Household_init_fresh [OF a]
  let ?m2 = "m\<lparr>agents := (agents m)(i := a), schedule := schedule m @ [i]\<rparr>"
  from Cons.prems(1) a obtain m3 where
    p: "place_agent i (pos_x a, pos_y a) ?m2 = Inr m3"
    and r: "create_agents caps (Suc i) ls (m3\<lparr>agent_list := agent_list m3 @ [i]\<rparr>) = Inr m'"
    by (auto simp: Let_def split: if_splits sum.splits)
  have free: "grid m (pos_x a, pos_y a) = None"
    and m3: "m3 = ?m2\<lparr>grid := (grid m)((pos_x a, pos_y a) \<mapsto> i)\<rparr>"
    using p by (auto simp: place_agent_def split: option.splits)
  let ?m4 = "m3\<lparr>agent_list := agent_list m3 @ [i]\<rparr>"
  have b: "schedule m = [0..<i]" "agent_list m = [0..<i]" "\<forall>b<i. fresh b (agents m b)"
    "grid_ok m"
    using Cons.prems(2) by (simp_all add: built_def)
  have g: "grid_ok ?m4"
    unfolding grid_ok_def
  proof (intro allI impI)
    fix q c
    assume q: "grid ?m4 q = Some c"
    show "c \<in> set (schedule ?m4) \<and> q = (pos_x (agents ?m4 c), pos_y (agents ?m4 c))"
    proof (cases "q = (pos_x a, pos_y a)")
      case True
      then have "c = i" using q by (simp add: m3)
      then show ?thesis using True by (simp add: m3)
    next
      case False
      then have "grid m q = Some c" using q by (simp add: m3)
      then have c: "c \<in> set (schedule m) \<and> q = (pos_x (agents m c), pos_y (agents m c))"
        using b(4) unfolding grid_ok_def by blast
      then have "c \<noteq> i" using b(1) by auto
      then show ?thesis using c by (simp add: m3)
    qed
  qed
  have "built (Suc i) ?m4"
    unfolding built_def
  proof (intro conjI)
    show "schedule ?m4 = [0..<Suc i]" by (simp add: m3 b)
    show "agent_list ?m4 = [0..<Suc i]" by (simp add: m3 b)
    show "\<forall>c<Suc i. fresh c (agents ?m4 c)" using b(3) fa by (simp add: m3 less_Suc_eq)
    show "grid_ok ?m4" by (rule g)
  qed
  from Cons.IH [OF r this] show ?case by (simp add: m3)
qed

lemma init_model_built:
  assumes "init_model w h n slr mode parameter t0 locations caps = Inr m"
    "valid_sample w h n locations"
  shows "built n m \<and> num_agents m = int n \<and> community_resistance m = 0
     \<and> accommodation_incentive m = 1 \<and> retreat_incentive m = 1
     \<and> network_mode m = mode \<and> network_parameter m = parameter"
proof -
  let ?m0 = "\<lparr>num_agents = int n, width = w, height = h, slr_acceleration = slr,
         init_slr_increase = 0.007, network_mode = mode,
         network_parameter = parameter, schedule = [], grid = (\<lambda>p. None),
         sea_level = 0, storm_surge = 0, community_resistance = 0,
         accommodation_incentive = 1, retreat_incentive = 1, p_adapt = 0,
         agent_list = [], agents = (\<lambda>i. undefined), tick = t0\<rparr>"
  have c: "create_agents caps 0 locations ?m0 = Inr m"
    using assms(1) by (simp add: init_model_def split: if_splits)
  have "built 0 ?m0" by (simp add: built_def grid_ok_def)
  from create_agents_built [OF c this] show ?thesis
    using assms(2) by (simp add: valid_sample_def)
qed

lemma built_model_ok:
  assumes "built n m" "num_agents m = int n" "incentives_ok m"
  shows "model_ok m"
  using assms
  by (simp add: model_ok_def built_def agents_ok_def roster_ok_def fresh_def)

lemma same_but_connections_fields:
  assumes "same_but_connections h h'"
  shows "household_ok h' = household_ok h \<and> unique_id h' = unique_id h
     \<and> retreated h' = retreated h \<and> pos_x h' = pos_x h \<and> pos_y h' = pos_y h"
proof -
  let ?c = "\<lambda>k. k\<lparr>connections := []\<rparr>"
  have e: "?c h = ?c h'" using assms by (simp add: same_but_connections_def)
  have "household_ok (?c h') = household_ok (?c h)" "unique_id (?c h') = unique_id (?c h)"
    "retreated (?c h') = retreated (?c h)" "pos_x (?c h') = pos_x (?c h)"
    "pos_y (?c h') = pos_y (?c h)"
    by (simp_all only: e)
  then show ?thesis by (simp add: household_ok_def)
qed

lemma stores_agree_refl: "stores_agree st st"
  by (simp add: stores_agree_def same_but_connections_def)

lemma stores_agree_trans: "stores_agree s1 s2 \<Longrightarrow> stores_agree s2 s3 \<Longrightarrow> stores_agree s1 s3"
  by (simp add: stores_agree_def same_but_connections_def)

lemma stores_agree_connect: "stores_agree st (connect i j st)"
  by (simp add: stores_agree_def same_but_connections_def connect_def Let_def)

lemma stores_agree_fold:
  assumes "\<And>x s. stores_agree s (f x s)"
  shows "stores_agree st (fold f xs st)"
proof (induction xs arbitrary: st)
  case Nil
  show ?case by (simp add: stores_agree_refl)
next
  case (Cons x xs)
  have "stores_agree st (f x st)" by (rule assms)
  moreover have "stores_agree (f x st) (fold f xs (f x st))" by (rule Cons.IH)
  ultimately have "stores_agree st (fold f xs (f x st))" by (rule stores_agree_trans)
  then show ?case by simp
qed

lemma spatial_inner_agree: "stores_agree st (spatial_inner radius i js st)"
  unfolding spatial_inner_def
  by (rule stores_agree_fold) (simp add: stores_agree_connect stores_agree_refl)

lemma aspatial_inner_agree: "stores_agree st (aspatial_inner density draw i js st)"
  unfolding aspatial_inner_def
  by (rule stores_agree_fold) (simp add: stores_agree_connect stores_agree_refl)

lemma set_init_connections_agree:
  "stores_agree (agents m) (agents (set_init_connections draw m))
   \<and> (\<exists>st. set_init_connections draw m = m\<lparr>agents := st\<rparr>)"
proof -
  have "stores_agree (agents m)
      (fold (\<lambda>i s. aspatial_inner (network_parameter m) draw i (schedule m) s)
         (schedule m) (agents m))"
    by (rule stores_agree_fold) (rule aspatial_inner_agree)
  moreover have "stores_agree (agents m)
      (fold (\<lambda>i s. spatial_inner (network_parameter m) i (schedule m) s)
         (schedule m) (agents m))"
    by (rule stores_agree_fold) (rule spatial_inner_agree)
  ultimately show ?thesis by (auto simp: set_init_connections_def)
qed

lemma set_init_connections_ok:
  assumes "model_ok m"
  shows "model_ok (set_init_connections draw m)"
proof -
  let ?m = "set_init_connections draw m"
  obtain st where st: "?m = m\<lparr>agents := st\<rparr>"
    using set_init_connections_agree by blast
  have f: "household_ok (agents ?m a) = household_ok (agents m a)
      \<and> unique_id (agents ?m a) = unique_id (agents m a)
      \<and> retreated (agents ?m a) = retreated (agents m a)
      \<and> pos_x (agents ?m a) = pos_x (agents m a)
      \<and> pos_y (agents ?m a) = pos_y (agents m a)" for a
    using set_init_connections_agree [of m draw]
    by (intro same_but_connections_fields) (simp add: stores_agree_def)
  have s: "schedule ?m = schedule m" "agent_list ?m = agent_list m" "grid ?m = grid m"
    "num_agents ?m = num_agents m" "incentives_ok ?m = incentives_ok m"
    by (simp_all add: st incentives_ok_def)
  have "agents_ok ?m" using assms by (simp add: model_ok_def agents_ok_def s f)
  moreover have "roster_ok ?m"
    using assms by (simp add: model_ok_def roster_ok_def grid_ok_def s f)
  ultimately show ?thesis using assms by (simp add: model_ok_def s)
qed

lemma reachable_model_ok: "reachable m \<Longrightarrow> model_ok m"
proof (induction rule: reachable.induct)
  case (init w h n locations slr mode parameter t0 caps m)
  note b = init_model_built [OF init(2,1)]
  show ?case by (rule built_model_ok) (use b in \<open>simp_all add: incentives_ok_def\<close>)
next
  case (network w h n locations slr mode parameter t0 caps m draw)
  note b = init_model_built [OF network(2,1)]
  have "model_ok m" by (rule built_model_ok) (use b in \<open>simp_all add: incentives_ok_def\<close>)
  then show ?case by (rule set_init_connections_ok)
next
  case (year m d m')
  from year(2,3) show ?case by (rule step_model_ok)
qed

lemma step_p_adapt:
  assumes "step d m = Inr m'"
  shows "p_adapt m' = p_adapt (before_agents d m)"
proof -
  let ?mo = "observe_all (capacity_noise d) (before_agents d m)"
  obtain m4 where a: "advance_all (x_decision d) (schedule ?mo) ?mo = Inr m4"
    and m': "m' = (fold reap (agent_list m4) m4)\<lparr>tick := tick (fold reap (agent_list m4) m4) + 1\<rparr>"
    using step_Inr [OF assms] by blast
  obtain st where "?mo = (before_agents d m)\<lparr>agents := st\<rparr>" using observe_all_frame by blast
  moreover obtain st' where "m4 = ?mo\<lparr>agents := st'\<rparr>" using advance_all_frame [OF a] by blast
  ultimately have "p_adapt m4 = p_adapt (before_agents d m)" by simp
  moreover have "p_adapt (fold reap as m4) = p_adapt m4" for as
    by (induction as arbitrary: m4) (simp_all add: reap_static)
  ultimately show ?thesis unfolding m' by simp
qed

lemma run_reachable:
  "run ds m = Inr m' \<Longrightarrow> reachable m \<Longrightarrow> reachable m'"
proof (induction ds arbitrary: m)
  case Nil
  then show ?case by simp
next
  case (Cons d ds)
  from Cons.prems(1) obtain m1 where s: "step d m = Inr m1" and r: "run ds m1 = Inr m'"
    by (auto split: sum.splits)
  have "reachable m1" using Cons.prems(2) s by (rule reachable.year)
  with r show ?case by (rule Cons.IH)
qed

lemma run_single: "step d m = Inr m' \<Longrightarrow> run [d] m = Inr m'"
  by simp

text \<open>A property that every year carries forward holds along a whole run.\<close>

lemma run_rel:
  assumes refl: "\<And>k. R k k"
    and trans: "\<And>k1 k2 k3. R k1 k2 \<Longrightarrow> R k2 k3 \<Longrightarrow> R k1 k3"
    and one: "\<And>d k k'. reachable k \<Longrightarrow> step d k = Inr k' \<Longrightarrow> R k k'"
    and run: "run ds m = Inr m'" and start: "reachable m"
  shows "R m m'"
  using run start
proof (induction ds arbitrary: m)
  case Nil
  then show ?case by (simp add: refl)
next
  case (Cons d ds)
  from Cons.prems(1) obtain m1 where s: "step d m = Inr m1" and r: "run ds m1 = Inr m'"
    by (auto split: sum.splits)
  have "reachable m1" using Cons.prems(2) s by (rule reachable.year)
  then have "R m1 m'" using r Cons.IH by blast
  moreover have "R m m1" using Cons.prems(2) s by (rule one)
  ultimately show ?case using trans by blast
qed

lemma step_shrinks:
  assumes "reachable m" "step d m = Inr m'"
  shows "num_agents m' \<le> num_agents m \<and> set (schedule m') \<subseteq> set (schedule m)
     \<and> community_resistance m \<le> community_resistance m'
     \<and> agent_list m' = agent_list m
     \<and> (\<forall>a. a \<notin> set (schedule m) \<longrightarrow> agents m' a = agents m a)
     \<and> (\<forall>a. agent_step (agents m a) (agents m' a))"
proof -
  have ok: "model_ok m" using assms(1) by (rule reachable_model_ok)
  then have inc: "incentives_ok m" by (simp add: model_ok_def)
  show ?thesis
    using step_community [OF assms(2)] before_agents_incentives [OF inc, of d]
      step_untouched [OF assms(2)] step_agent_step [OF assms(2) inc]
    by simp
qed

section \<open>Evaluation of the examples\<close>

lemmas year_defs =
  step_def calculate_storm_surge_def calculate_inundation_def community_adaptation_def
  total_damage_def total_inundation_def staircase_def decrements_def schedule_step_def
  observe_all_def observe_agent_def household_step_def apply_damage_def apply_inundation_def
  calculate_attachment_def attachment_of_def retreated_connections_def
  remaining_connections_def calculate_adaptive_capacity_def make_decision_def
  raw_weights_def set_p_action_def set_p_resist_def set_p_accommodate_def
  set_p_retreat_def set_p_adapt_def normalize_weights_def rescale_resist_def
  rescale_accommodate_def rescale_retreat_def weight_sum_def act_def escalate_def reap_def py_div_def

lemma demo_model_init:
  "init_model 1 1 1 0 ''aspatial'' 0 50 [0] (\<lambda>i. 1) = Inr demo_model"
  by (simp add: init_model_def Household_init_def py_div_def place_agent_def Let_def
      demo_model_def demo_agent_def)

lemma demo_sample: "valid_sample 1 1 1 [0]"
  by (simp add: valid_sample_def)

lemma demo_stayed_step: "step (quiet_year 0.99) demo_model = Inr demo_stayed"
  by (simp add: demo_stayed_def demo_agent_after_def demo_model_def demo_agent_def
      quiet_year_def year_defs Let_def)

lemma demo_retreated_step: "step (quiet_year 0.72) demo_model = Inr demo_retreated"
  by (simp add: demo_retreated_def demo_agent_after_def demo_model_def demo_agent_def
      quiet_year_def year_defs Let_def)

lemma reachable_demo_model: "reachable demo_model"
  using reachable.init [OF demo_sample demo_model_init] .

lemma reachable_demo_stayed: "reachable demo_stayed"
  using reachable.year [OF reachable_demo_model demo_stayed_step] .

lemma reachable_demo_retreated: "reachable demo_retreated"
  using reachable.year [OF reachable_demo_model demo_retreated_step] .

lemma demo_resisted_step: "step (quiet_year 0.1) demo_model = Inr demo_resisted"
  by (simp add: demo_resisted_def demo_agent_after_def demo_model_def demo_agent_def
      quiet_year_def year_defs Let_def)

lemma reachable_demo_resisted: "reachable demo_resisted"
  using reachable.year [OF reachable_demo_model demo_resisted_step] .

lemma make_decision_ladder:
  assumes "make_decision m x h = Inr h'"
  shows "(resistance h' = resistance h \<or> resistance h' = escalate (resistance h))
     \<and> (accommodation h' = accommodation h \<or> accommodation h' = escalate (accommodation h))
     \<and> (2 \<le> resistance h \<longrightarrow> p_resist h' = 0)
     \<and> (2 \<le> resistance h \<and> 0 \<le> x \<longrightarrow> resistance h' = resistance h)"
proof (cases "weight_sum (weighted m h) = 0")
  case True
  then have h': "h' = weighted m h"
    using assms by (simp add: make_decision_def raw_weights_weighted)
  show ?thesis
    using weighted_kept [of h m] weighted_p_resist [of m h]
    by (simp add: h' decided_kept_def)
next
  case False
  then obtain h2 where h2: "normalize_weights (weighted m h) = Inr h2" and a: "h' = act m x h2"
    using assms by (auto simp: make_decision_def raw_weights_weighted split: sum.splits)
  have k: "resistance h2 = resistance (weighted m h)"
    "accommodation h2 = accommodation (weighted m h)"
    "p_resist (weighted m h) = 0 \<longrightarrow> p_resist h2 = 0"
    using h2
    by (auto simp: normalize_weights_def rescale_resist_def rescale_accommodate_def
        rescale_retreat_def py_div_def split: sum.splits if_splits)
  have w: "resistance (weighted m h) = resistance h"
    "accommodation (weighted m h) = accommodation h"
    using weighted_kept [of h m] by (simp_all add: decided_kept_def)
  have z: "2 \<le> resistance h \<longrightarrow> p_resist h2 = 0"
    using k(3) weighted_p_resist [of m h] by simp
  have "2 \<le> resistance h \<and> 0 \<le> x \<longrightarrow> resistance (act m x h2) = resistance h2"
    using z by (simp add: act_def)
  then show ?thesis
    using act_ladder [of m x h2] act_kept [of h2 m x] z by (simp add: a k w)
qed

lemma escalate_steps:
  "escalate 0 = 1 \<and> escalate 1 = 1.5 \<and> (v \<noteq> 0 \<and> v \<noteq> 1 \<longrightarrow> escalate v = 2)"
  by (simp add: escalate_def)

lemma community_adaptation_p_adapt:
  assumes "0 < num_agents k" "\<forall>a\<in>set (schedule k). 0 \<le> flood_damage (agents k a)"
  shows "1 / 10 \<le> p_adapt (community_adaptation x r1 r2 k)"
  using set_p_adapt_lower [OF assms] assms(1)
    decrements_static [of r1 r2 "staircase x (set_p_adapt k)"]
    staircase_static [of x "set_p_adapt k"]
  by (simp add: community_adaptation_def)

lemma staircase_unreachable_branch:
  assumes "0 < num_agents k" "\<forall>a\<in>set (schedule k). 0 \<le> flood_damage (agents k a)"
    "community_resistance k < 3"
  shows "accommodation_incentive (staircase x (set_p_adapt k)) = accommodation_incentive k"
proof -
  have "0 \<le> p_adapt (set_p_adapt k)" using set_p_adapt_lower [OF assms(1,2)] by simp
  moreover have "community_resistance (set_p_adapt k) < 3"
    using assms(3) set_p_adapt_static [of k] by simp
  ultimately have "accommodation_incentive (staircase x (set_p_adapt k))
      = accommodation_incentive (set_p_adapt k)"
    by (intro staircase_accommodation)
  then show ?thesis using set_p_adapt_static [of k] by simp
qed

lemma community_adaptation_accommodation:
  assumes "\<forall>a\<in>set (schedule k). 0 \<le> flood_damage (agents k a)"
    "community_resistance k < 3" "1 \<le> accommodation_incentive k"
  shows "accommodation_incentive (community_adaptation x r1 r2 k) \<le> accommodation_incentive k
     \<and> 1 \<le> accommodation_incentive (community_adaptation x r1 r2 k)"
proof (cases "0 < num_agents k")
  case True
  have "accommodation_incentive (staircase x (set_p_adapt k)) = accommodation_incentive k"
    using True assms(1,2) by (rule staircase_unreachable_branch)
  then show ?thesis
    using True assms(3) by (simp add: community_adaptation_def decrements_def Let_def)
next
  case False
  then show ?thesis using assms(3) by (simp add: community_adaptation_def)
qed

lemma reachable_accommodation_floor:
  "reachable m \<Longrightarrow> community_resistance m < 3 \<longrightarrow> accommodation_incentive m = 1"
proof (induction rule: reachable.induct)
  case (init w h n locations slr mode parameter t0 caps m)
  then show ?case using init_model_built [OF init(2,1)] by simp
next
  case (network w h n locations slr mode parameter t0 caps m draw)
  obtain st where "set_init_connections draw m = m\<lparr>agents := st\<rparr>"
    using set_init_connections_agree by blast
  then show ?case using init_model_built [OF network(2,1)] by simp
next
  case (year m d m')
  show ?case
  proof
    assume c: "community_resistance m' < 3"
    have ok: "model_ok m" using year(1) by (rule reachable_model_ok)
    have low: "community_resistance m < 3" using step_shrinks [OF year(1,2)] c by simp
    then have one: "accommodation_incentive m = 1" using year(3) by simp
    let ?m0 = "(calculate_inundation m)\<lparr>storm_surge := max 0 (- ln (2 * aep d) / 1.164)\<rparr>"
    have e: "accommodation_incentive m' = accommodation_incentive (before_agents d m)"
      using step_community [OF year(2)] by simp
    have m0: "community_resistance ?m0 = community_resistance m"
      "accommodation_incentive ?m0 = accommodation_incentive m"
      "num_agents ?m0 = num_agents m" "schedule ?m0 = schedule m" "agents ?m0 = agents m"
      by (simp_all add: calculate_inundation_def)
    have "accommodation_incentive (before_agents d m) = 1"
    proof (cases "0 < num_agents m")
      case True
      have "\<forall>a\<in>set (schedule m). 0 \<le> flood_damage (agents m a)"
        using ok by (auto simp: model_ok_def roster_ok_def agents_ok_def household_ok_def)
      then have "1 / 10 \<le> p_adapt (set_p_adapt ?m0)"
        using True by (intro set_p_adapt_lower) (simp_all add: calculate_inundation_def)
      then have p: "0 \<le> p_adapt (set_p_adapt ?m0)" by simp
      have "community_resistance (set_p_adapt ?m0) < 3"
        using low set_p_adapt_static [of ?m0] by (simp add: calculate_inundation_def)
      then have "accommodation_incentive (staircase (x_adapt d) (set_p_adapt ?m0))
          = accommodation_incentive (set_p_adapt ?m0)"
        using p by (rule staircase_accommodation)
      then have s: "accommodation_incentive (staircase (x_adapt d) (set_p_adapt ?m0)) = 1"
        using set_p_adapt_static [of ?m0] one by (simp add: calculate_inundation_def)
      have "accommodation_incentive
          (decrements (r_accommodation d) (r_retreat d) (staircase (x_adapt d) (set_p_adapt ?m0))) = 1"
        using s by (simp add: decrements_def Let_def)
      then show ?thesis using True by (simp add: before_agents_def community_adaptation_def calculate_inundation_def)
    next
      case False
      then show ?thesis using one by (simp add: before_agents_def community_adaptation_def calculate_inundation_def)
    qed
    then show "accommodation_incentive m' = 1" using e by simp
  qed
qed

section \<open>Properties of the network construction\<close>

lemma count_list_snoc: "count_list (xs @ [y]) b = count_list xs b + (if y = b then 1 else 0)"
  by (induction xs) simp_all

lemma connect_connections:
  "connections (connect i j st a)
     = connections (st a) @ (if a = i then [j] else []) @ (if a = j then [i] else [])"
  by (simp add: connect_def Let_def)

lemma connect_count:
  "count_list (connections (connect i j st a)) b
     = count_list (connections (st a)) b + contribution a b i j"
  unfolding connect_connections contribution_def
  by (cases "a = i"; cases "a = j"; cases "b = i"; cases "b = j") simp_all

lemma link_count:
  "count_list (connections (link C i js st a)) b
     = count_list (connections (st a)) b
       + (\<Sum>j\<leftarrow>js. if C i j then contribution a b i j else 0)"
proof (induction js arbitrary: st)
  case Nil
  show ?case by (simp add: link_def)
next
  case (Cons j js)
  have "link C i (j # js) st = link C i js (if C i j then connect i j st else st)"
    by (simp add: link_def)
  then show ?case using Cons.IH [of "if C i j then connect i j st else st"]
    by (simp add: connect_count)
qed

lemma link_all_count:
  "count_list (connections (link_all C is js st a)) b
     = count_list (connections (st a)) b
       + (\<Sum>i\<leftarrow>is. \<Sum>j\<leftarrow>js. if C i j then contribution a b i j else 0)"
proof (induction "is" arbitrary: st)
  case Nil
  show ?case by (simp add: link_all_def)
next
  case (Cons i "is")
  have "link_all C (i # is) js st = link_all C is js (link C i js st)"
    by (simp add: link_all_def)
  then show ?case using Cons.IH [of "link C i js st"] by (simp add: link_count)
qed

lemma pair_sum:
  assumes "distinct xs"
  shows "(\<Sum>i\<leftarrow>xs. \<Sum>j\<leftarrow>xs. if C i j then contribution a b i j else 0)
     = (if a \<in> set xs \<and> b \<in> set xs
        then (if C a b then 1 else 0) + (if C b a then 1 else 0) else 0)"
proof -
  let ?S = "set xs"
  have t: "(if C i j then contribution a b i j else 0)
      = (if i = a then (if j = b then (if C a b then 1 else 0) else 0) else 0)
        + (if i = b then (if j = a then (if C b a then 1 else 0) else 0) else 0)" for i j
    by (auto simp: contribution_def)
  have inner: "(\<Sum>j\<in>?S. if C i j then contribution a b i j else 0)
      = (if i = a then (if b \<in> ?S then (if C a b then 1 else 0) else 0) else 0)
        + (if i = b then (if a \<in> ?S then (if C b a then 1 else 0) else 0) else 0)" for i
    by (simp add: t sum.distrib)
  have "(\<Sum>i\<leftarrow>xs. \<Sum>j\<leftarrow>xs. if C i j then contribution a b i j else 0)
      = (\<Sum>i\<in>?S. \<Sum>j\<in>?S. if C i j then contribution a b i j else 0)"
    using assms by (simp add: sum_list_distinct_conv_sum_set)
  also have "\<dots> = (if a \<in> ?S then (if b \<in> ?S then (if C a b then 1 else 0) else 0) else 0)
      + (if b \<in> ?S then (if a \<in> ?S then (if C b a then 1 else 0) else 0) else 0)"
    by (simp only: inner sum.distrib sum.delta finite_set)
  finally show ?thesis by simp
qed

lemma within_radius_agree:
  assumes "same_but_connections h h'" "same_but_connections k k'"
  shows "within_radius r h' k' = within_radius r h k"
  using same_but_connections_fields [OF assms(1)] same_but_connections_fields [OF assms(2)]
  by (simp add: within_radius_def)

lemma within_radius_sym: "within_radius r h k = within_radius r k h"
  by (auto simp: within_radius_def abs_minus_commute)

lemma link_agree: "stores_agree s (link C i js s)"
  unfolding link_def
  by (rule stores_agree_fold) (simp add: stores_agree_connect stores_agree_refl)

lemma spatial_inner_link:
  assumes "stores_agree st0 s"
  shows "spatial_inner r i js s = link (\<lambda>i j. within_radius r (st0 i) (st0 j)) i js s"
  using assms
proof (induction js arbitrary: s)
  case Nil
  show ?case by (simp add: spatial_inner_def link_def)
next
  case (Cons j js)
  let ?C = "\<lambda>i j. within_radius r (st0 i) (st0 j)"
  let ?s = "if ?C i j then connect i j s else s"
  have c: "within_radius r (s i) (s j) = ?C i j"
    using Cons.prems by (intro within_radius_agree) (simp_all add: stores_agree_def)
  have "stores_agree s ?s" by (simp add: stores_agree_connect stores_agree_refl)
  with Cons.prems have "stores_agree st0 ?s" by (rule stores_agree_trans)
  then have "spatial_inner r i js ?s = link ?C i js ?s" by (rule Cons.IH)
  moreover have "spatial_inner r i (j # js) s = spatial_inner r i js ?s"
    by (simp add: spatial_inner_def c)
  moreover have "link ?C i (j # js) s = link ?C i js ?s" by (simp add: link_def)
  ultimately show ?case by simp
qed

lemma spatial_outer_link:
  assumes "stores_agree st0 s"
  shows "fold (\<lambda>i s. spatial_inner r i js s) is s
     = link_all (\<lambda>i j. within_radius r (st0 i) (st0 j)) is js s"
  using assms
proof (induction "is" arbitrary: s)
  case Nil
  show ?case by (simp add: link_all_def)
next
  case (Cons i "is")
  let ?C = "\<lambda>i j. within_radius r (st0 i) (st0 j)"
  have e: "spatial_inner r i js s = link ?C i js s" using Cons.prems by (rule spatial_inner_link)
  have "stores_agree st0 (link ?C i js s)"
    using Cons.prems link_agree by (rule stores_agree_trans)
  then have "fold (\<lambda>i s. spatial_inner r i js s) is (link ?C i js s)
      = link_all ?C is js (link ?C i js s)"
    by (rule Cons.IH)
  then show ?case by (simp add: e link_all_def)
qed

lemma aspatial_inner_link:
  assumes "stores_agree st0 s"
  shows "aspatial_inner density draw i js s
     = link (\<lambda>i j. unique_id (st0 i) < unique_id (st0 j) \<and> draw i j < density) i js s"
  using assms
proof (induction js arbitrary: s)
  case Nil
  show ?case by (simp add: aspatial_inner_def link_def)
next
  case (Cons j js)
  let ?C = "\<lambda>i j. unique_id (st0 i) < unique_id (st0 j) \<and> draw i j < density"
  let ?s = "if ?C i j then connect i j s else s"
  have u: "unique_id (s i) = unique_id (st0 i)" "unique_id (s j) = unique_id (st0 j)"
    using Cons.prems same_but_connections_fields [of "st0 i" "s i"]
      same_but_connections_fields [of "st0 j" "s j"]
    by (simp_all add: stores_agree_def)
  have "stores_agree s ?s" by (simp add: stores_agree_connect stores_agree_refl)
  with Cons.prems have "stores_agree st0 ?s" by (rule stores_agree_trans)
  then have "aspatial_inner density draw i js ?s = link ?C i js ?s" by (rule Cons.IH)
  moreover have "aspatial_inner density draw i (j # js) s = aspatial_inner density draw i js ?s"
    by (simp add: aspatial_inner_def u)
  moreover have "link ?C i (j # js) s = link ?C i js ?s" by (simp add: link_def)
  ultimately show ?case by simp
qed

lemma aspatial_outer_link:
  assumes "stores_agree st0 s"
  shows "fold (\<lambda>i s. aspatial_inner density draw i js s) is s
     = link_all (\<lambda>i j. unique_id (st0 i) < unique_id (st0 j) \<and> draw i j < density) is js s"
  using assms
proof (induction "is" arbitrary: s)
  case Nil
  show ?case by (simp add: link_all_def)
next
  case (Cons i "is")
  let ?C = "\<lambda>i j. unique_id (st0 i) < unique_id (st0 j) \<and> draw i j < density"
  have e: "aspatial_inner density draw i js s = link ?C i js s"
    using Cons.prems by (rule aspatial_inner_link)
  have "stores_agree st0 (link ?C i js s)"
    using Cons.prems link_agree by (rule stores_agree_trans)
  then have "fold (\<lambda>i s. aspatial_inner density draw i js s) is (link ?C i js s)
      = link_all ?C is js (link ?C i js s)"
    by (rule Cons.IH)
  then show ?case by (simp add: e link_all_def)
qed

text \<open>The number of times \<open>b\<close> stands in the connections of \<open>a\<close> after the construction.\<close>

lemma set_init_connections_count:
  assumes "distinct (schedule m)"
  shows "count_list (connections (agents (set_init_connections draw m) a)) b
     = count_list (connections (agents m a)) b
       + (if a \<in> set (schedule m) \<and> b \<in> set (schedule m)
          then (if network_mode m = ''aspatial''
                then (if unique_id (agents m a) < unique_id (agents m b)
                         \<and> draw a b < network_parameter m then 1 else 0)
                     + (if unique_id (agents m b) < unique_id (agents m a)
                           \<and> draw b a < network_parameter m then 1 else 0)
                else (if within_radius (network_parameter m) (agents m a) (agents m b)
                      then 2 else 0))
          else 0)"
proof (cases "network_mode m = ''aspatial''")
  case True
  let ?C = "\<lambda>i j. unique_id (agents m i) < unique_id (agents m j)
      \<and> draw i j < network_parameter m"
  have "agents (set_init_connections draw m) = link_all ?C (schedule m) (schedule m) (agents m)"
    using True aspatial_outer_link [OF stores_agree_refl]
    by (simp add: set_init_connections_def)
  then show ?thesis using True by (simp add: link_all_count pair_sum [OF assms])
next
  case False
  let ?C = "\<lambda>i j. within_radius (network_parameter m) (agents m i) (agents m j)"
  have "agents (set_init_connections draw m) = link_all ?C (schedule m) (schedule m) (agents m)"
    using False spatial_outer_link [OF stores_agree_refl]
    by (simp add: set_init_connections_def)
  then show ?thesis
    using False within_radius_sym [of "network_parameter m" "agents m b" "agents m a"]
    by (simp add: link_all_count pair_sum [OF assms])
qed

lemma demo_pair_init:
  "init_model 2 1 2 0 mode parameter 0 [0, 1] (\<lambda>i. 1) = Inr (demo_pair mode parameter)"
  by (simp add: init_model_def Household_init_def py_div_def place_agent_def Let_def
      demo_pair_def demo_pair_agent_def)

lemma demo_pair_sample: "valid_sample 2 1 2 [0, 1]"
  by (simp add: valid_sample_def)

lemma count_list_remdups: "count_list (remdups cs) b = (if b \<in> set cs then 1 else 0)"
  by (induction cs) auto

lemma doubled_filter:
  assumes "\<forall>b. count_list cs b = 2 * count_list ds b"
  shows "length (filter P cs) = 2 * length (filter P ds)"
proof -
  have "mset cs = mset ds + mset ds"
    by (rule multiset_eqI) (simp add: count_mset assms)
  then have "filter_mset P (mset cs) = filter_mset P (mset ds) + filter_mset P (mset ds)"
    by simp
  then have "size (filter_mset P (mset cs)) = 2 * size (filter_mset P (mset ds))"
    by simp
  moreover have "length (filter P xs) = size (filter_mset P (mset xs))" for xs :: "'a list"
    by (metis mset_filter size_mset)
  ultimately show ?thesis by simp
qed

lemma doubled_attachment:
  assumes "\<forall>b. count_list cs b = 2 * count_list ds b"
  shows "attachment_of st cs = attachment_of st ds \<and> length cs = 2 * length ds"
proof -
  have r: "retreated_connections st cs = 2 * retreated_connections st ds"
    and k: "remaining_connections st cs = 2 * remaining_connections st ds"
    unfolding retreated_connections_def remaining_connections_def
    using assms by (rule doubled_filter)+
  have "length (filter (\<lambda>a. True) cs) = 2 * length (filter (\<lambda>a. True) ds)"
    using assms by (rule doubled_filter)
  then have l: "length cs = 2 * length ds" by simp
  have "real (2 * retreated_connections st ds + 2 * remaining_connections st ds)
      = 2 * real (retreated_connections st ds + remaining_connections st ds)"
    by simp
  then have "real (2 * remaining_connections st ds)
        / real (2 * retreated_connections st ds + 2 * remaining_connections st ds)
      = (2 * real (remaining_connections st ds))
        / (2 * real (retreated_connections st ds + remaining_connections st ds))"
    by simp
  also have "\<dots> = real (remaining_connections st ds)
        / real (retreated_connections st ds + remaining_connections st ds)"
    by (rule mult_divide_mult_cancel_left) simp
  finally have "real (2 * remaining_connections st ds)
        / real (2 * retreated_connections st ds + 2 * remaining_connections st ds)
      = real (remaining_connections st ds)
        / real (retreated_connections st ds + remaining_connections st ds)" .
  then show ?thesis using l by (simp add: attachment_of_def r k)
qed

section \<open>The normalisation of the action probabilities\<close>

text \<open>
  C1. The claim is that the three probabilities stored by the normalisation sum to
  \<open>p_action\<close> whenever the raw weights do not sum to zero. The source divides the second
  and the third weight by a sum that already contains the rescaled earlier weights, and
  the result is a different sum: for the household of the example, in its first year,
  the raw weights are 0.6, 0.3 and 0.1 with sum 1, \<open>p_action\<close> is 0.73, and the three stored
  probabilities sum to 27738866821/35083079500, about 0.79.
\<close>

theorem normalize_sum_differs:
  "step (quiet_year 0.99) demo_model = Inr demo_stayed
   \<and> raw_weights demo_model demo_observed = Inr (demo_observed\<lparr>p_action := 73 / 100\<rparr>)
   \<and> weight_sum (demo_observed\<lparr>p_action := 73 / 100\<rparr>) = 1
   \<and> make_decision demo_model 0.99 demo_observed = Inr (agents demo_stayed 0)
   \<and> p_action (agents demo_stayed 0) = 73 / 100
   \<and> weight_sum (agents demo_stayed 0) = 27738866821 / 35083079500"
  by (simp add: demo_stayed_def demo_agent_after_def demo_model_def demo_agent_def
      demo_observed_def quiet_year_def year_defs Let_def)

section \<open>Population and roster\<close>

text \<open>
  C5. At every observation point of a run (the constructed model and the model after
  each year) the counter \<open>num_agents\<close> is the number of agents in the list of the
  scheduler, and along a run of any number of years the counter never grows.
\<close>

theorem population_matches_roster:
  assumes "reachable m"
  shows "num_agents m = int (length (schedule m))
     \<and> (\<forall>ds m'. run ds m = Inr m' \<longrightarrow>
          num_agents m' = int (length (schedule m')) \<and> num_agents m' \<le> num_agents m)"
proof (intro conjI allI impI)
  show "num_agents m = int (length (schedule m))"
    using reachable_model_ok [OF assms] by (simp add: model_ok_def roster_ok_def)
next
  fix ds m'
  assume r: "run ds m = Inr m'"
  have "reachable m'" using r assms by (rule run_reachable)
  then show "num_agents m' = int (length (schedule m'))"
    using reachable_model_ok by (simp add: model_ok_def roster_ok_def)
  show "num_agents m' \<le> num_agents m"
  proof (rule run_rel [where R = "\<lambda>k k'. num_agents k' \<le> num_agents k", OF _ _ _ r assms])
    fix d k k'
    assume "reachable k" "step d k = Inr k'"
    then show "num_agents k' \<le> num_agents k" using step_shrinks by blast
  qed simp_all
qed

theorem population_matches_roster_witness:
  "reachable demo_model \<and> run [quiet_year 0.72] demo_model = Inr demo_retreated
   \<and> num_agents demo_model = int (length (schedule demo_model))
   \<and> num_agents demo_retreated = int (length (schedule demo_retreated))
   \<and> num_agents demo_retreated \<le> num_agents demo_model
   \<and> num_agents demo_retreated = 0 \<and> num_agents demo_model = 1"
proof -
  have r: "run [quiet_year 0.72] demo_model = Inr demo_retreated"
    using demo_retreated_step by (rule run_single)
  have "num_agents demo_model = int (length (schedule demo_model))
      \<and> num_agents demo_retreated = int (length (schedule demo_retreated))
      \<and> num_agents demo_retreated \<le> num_agents demo_model"
    using population_matches_roster [OF reachable_demo_model] r by blast
  moreover have "num_agents demo_retreated = 0 \<and> num_agents demo_model = 1"
    by (simp add: demo_retreated_def demo_model_def)
  ultimately show ?thesis using r reachable_demo_model by blast
qed

section \<open>The raw weights of the three actions\<close>

text \<open>
  What the three rules read: the weights stored in the household. They are 0.6, 0.3 and
  0.1 when the household comes from its constructor, and the observe phase does not
  change them.
\<close>

lemma raw_weights_read_stored:
  "(\<exists>h1. raw_weights m h = Inr h1
      \<and> p_resist h1
          = (if 2 \<le> resistance h \<or> adaptive_capacity h \<le> 0 then 0 else p_resist h)
      \<and> p_accommodate h1
          = (if accommodation h < 2
                \<and> - 0.1 * (real_of_int (accommodation_incentive m) - 1) < adaptive_capacity h
             then p_accommodate h * real_of_int (accommodation_incentive m) else 0)
      \<and> p_retreat h1
          = (if - 0.1 * (real_of_int (retreat_incentive m) - 1) < adaptive_capacity h
             then (if attachment h \<noteq> 0
                   then p_retreat h * real_of_int (retreat_incentive m) / attachment h
                   else p_retreat h * real_of_int (retreat_incentive m))
             else 0))
   \<and> (Household_init i w px py cap = Inr h0 \<longrightarrow>
        p_resist (household_step s n h0) = 0.6 \<and> p_accommodate (household_step s n h0) = 0.3
        \<and> p_retreat (household_step s n h0) = 0.1)
   \<and> p_resist (household_step s n h) = p_resist h
   \<and> p_accommodate (household_step s n h) = p_accommodate h
   \<and> p_retreat (household_step s n h) = p_retreat h"
proof -
  have "Household_init i w px py cap = Inr h0 \<longrightarrow>
      p_resist h0 = 0.6 \<and> p_accommodate h0 = 0.3 \<and> p_retreat h0 = 0.1"
    by (auto simp: Household_init_def py_div_def split: if_splits)
  then show ?thesis
    using household_step_kept [of h0 s n] household_step_kept [of h s n]
    by (simp add: raw_weights_weighted weighted_p_resist weighted_p_accommodate
        weighted_p_retreat retreat_weight_def)
qed

text \<open>
  C2. Every year the raw weights are to start from 0.6, 0.3 and 0.1. The source assigns
  these values in the constructor only; \<^verbatim>\<open>make_decision\<close> reads the fields \<^verbatim>\<open>p_resist\<close>,
  \<^verbatim>\<open>p_accommodate\<close> and \<^verbatim>\<open>p_retreat\<close> and overwrites them, so a year starts from what the
  year before has left. Two runs of the example show it. After a year without action
  the household, with resistance 0 and capacity 1, has the raw weight 219/500 for
  resistance, where the base value gives 0.6. After a year in which its capacity was
  -1 all three stored weights are 0, and in the following year, with capacity 1,
  \<open>p_action\<close> 0.7426 and the draw 0, the raw weights still sum to 0 and the household
  does nothing.
\<close>

theorem raw_weights_carry_over:
  "init_model 1 1 1 0 ''aspatial'' 0 50 [0] (\<lambda>i. 1) = Inr demo_model
   \<and> step (quiet_year 0.99) demo_model = Inr demo_stayed
   \<and> household_step (before_agents (quiet_year 0.99) demo_stayed) 0 (agents demo_stayed 0)
       = demo_observed_again
   \<and> resistance demo_observed_again = 0 \<and> adaptive_capacity demo_observed_again = 1
   \<and> raw_weights (before_agents (quiet_year 0.99) demo_stayed) demo_observed_again
       = Inr (demo_observed_again\<lparr>p_action := 3713 / 5000\<rparr>)
   \<and> p_resist demo_observed_again = 219 / 500
   \<and> raw_weights (before_agents (quiet_year 0.99) demo_stayed) demo_observed_again
       \<noteq> raw_weights (before_agents (quiet_year 0.99) demo_stayed)
            (demo_observed_again\<lparr>p_resist := 0.6, p_accommodate := 0.3, p_retreat := 0.1\<rparr>)
   \<and> step (noisy_year (- 2) 0.99) demo_model = Inr demo_inert
   \<and> step (noisy_year 2 0) demo_inert = Inr demo_inert_again
   \<and> adaptive_capacity (agents demo_inert_again 0) = 1
   \<and> p_action (agents demo_inert_again 0) = 3713 / 5000
   \<and> weight_sum (agents demo_inert_again 0) = 0
   \<and> resistance (agents demo_inert_again 0) = 0
   \<and> accommodation (agents demo_inert_again 0) = 0
   \<and> \<not> retreated (agents demo_inert_again 0)"
proof -
  have "household_step (before_agents (quiet_year 0.99) demo_stayed) 0 (agents demo_stayed 0)
       = demo_observed_again
   \<and> resistance demo_observed_again = 0 \<and> adaptive_capacity demo_observed_again = 1
   \<and> raw_weights (before_agents (quiet_year 0.99) demo_stayed) demo_observed_again
       = Inr (demo_observed_again\<lparr>p_action := 3713 / 5000\<rparr>)
   \<and> p_resist demo_observed_again = 219 / 500
   \<and> raw_weights (before_agents (quiet_year 0.99) demo_stayed) demo_observed_again
       \<noteq> raw_weights (before_agents (quiet_year 0.99) demo_stayed)
            (demo_observed_again\<lparr>p_resist := 0.6, p_accommodate := 0.3, p_retreat := 0.1\<rparr>)"
    by (simp add: demo_observed_again_def demo_stayed_def demo_agent_after_def demo_model_def
        demo_agent_def quiet_year_def before_agents_def year_defs Let_def)
  moreover have "step (noisy_year (- 2) 0.99) demo_model = Inr demo_inert"
    by (simp add: demo_inert_def demo_inert_agent_def demo_observed_def demo_model_def
        demo_agent_def noisy_year_def quiet_year_def year_defs Let_def)
  moreover have "step (noisy_year 2 0) demo_inert = Inr demo_inert_again"
    by (simp add: demo_inert_again_def demo_inert_def demo_inert_agent_def demo_observed_def
        demo_model_def demo_agent_def noisy_year_def quiet_year_def year_defs Let_def)
  moreover have "adaptive_capacity (agents demo_inert_again 0) = 1
      \<and> p_action (agents demo_inert_again 0) = 3713 / 5000
      \<and> weight_sum (agents demo_inert_again 0) = 0
      \<and> resistance (agents demo_inert_again 0) = 0
      \<and> accommodation (agents demo_inert_again 0) = 0
      \<and> \<not> retreated (agents demo_inert_again 0)"
    by (simp add: demo_inert_again_def demo_inert_agent_def demo_observed_def demo_agent_def
        weight_sum_def)
  ultimately show ?thesis using demo_model_init demo_stayed_step by blast
qed

section \<open>Community adaptation\<close>

text \<open>
  C3. The claim is that the staircase is evaluated every year. The source evaluates it
  only when \<open>num_agents\<close> is positive: once the last household has retreated the
  model keeps its last \<open>p_adapt\<close>, here 1/10, and a draw of 1/100, below 0.6 times
  that value, changes nothing.
\<close>

theorem staircase_every_year_counterexample:
  "reachable demo_retreated \<and> num_agents demo_retreated = 0
   \<and> community_resistance demo_retreated < 3
   \<and> p_adapt (community_adaptation (1 / 100) 0.99 0.99 demo_retreated) = 1 / 10
   \<and> (1 / 100 :: real) < 0.6 * p_adapt (community_adaptation (1 / 100) 0.99 0.99 demo_retreated)
   \<and> community_resistance (community_adaptation (1 / 100) 0.99 0.99 demo_retreated)
       = community_resistance demo_retreated
   \<and> community_adaptation (1 / 100) 0.99 0.99 demo_retreated = demo_retreated"
proof -
  have "num_agents demo_retreated = 0
   \<and> community_resistance demo_retreated < 3
   \<and> p_adapt (community_adaptation (1 / 100) 0.99 0.99 demo_retreated) = 1 / 10
   \<and> (1 / 100 :: real) < 0.6 * p_adapt (community_adaptation (1 / 100) 0.99 0.99 demo_retreated)
   \<and> community_resistance (community_adaptation (1 / 100) 0.99 0.99 demo_retreated)
       = community_resistance demo_retreated
   \<and> community_adaptation (1 / 100) 0.99 0.99 demo_retreated = demo_retreated"
    by (simp add: community_adaptation_def demo_retreated_def demo_model_def)
  then show ?thesis using reachable_demo_retreated by blast
qed

text \<open>
  C3, as the source has it. In a year with a positive \<open>num_agents\<close>, community
  adaptation is the staircase on the model with its new \<open>p_adapt\<close>, followed by the two
  random decrements; in any other year it changes nothing. The staircase tries its
  thresholds in sequence against the one draw: below resistance 3 they are 0.6, 0.3 and
  1 times \<open>p_adapt\<close>, for community resistance, the accommodation incentive and the
  retreat incentive; otherwise 0.7 and 1 times \<open>p_adapt\<close>, for the two incentives. It
  increments at most one of the three fields, by one, and in a reachable model
  "otherwise" is resistance 3.
\<close>

theorem staircase_outcomes:
  "(0 < num_agents m \<longrightarrow>
      community_adaptation x r1 r2 m = decrements r1 r2 (staircase x (set_p_adapt m)))
   \<and> (\<not> 0 < num_agents m \<longrightarrow> community_adaptation x r1 r2 m = m)
   \<and> (community_resistance k < 3 \<and> x < p_adapt k * 0.6 \<longrightarrow>
        staircase x k = k\<lparr>community_resistance := community_resistance k + 1\<rparr>)
   \<and> (community_resistance k < 3 \<and> \<not> x < p_adapt k * 0.6 \<and> x < p_adapt k * 0.3 \<longrightarrow>
        staircase x k = k\<lparr>accommodation_incentive := accommodation_incentive k + 1\<rparr>)
   \<and> (community_resistance k < 3 \<and> \<not> x < p_adapt k * 0.6 \<and> \<not> x < p_adapt k * 0.3
        \<and> x < p_adapt k \<longrightarrow>
        staircase x k = k\<lparr>retreat_incentive := retreat_incentive k + 1\<rparr>)
   \<and> (community_resistance k < 3 \<and> \<not> x < p_adapt k * 0.6 \<and> \<not> x < p_adapt k * 0.3
        \<and> \<not> x < p_adapt k \<longrightarrow> staircase x k = k)
   \<and> (\<not> community_resistance k < 3 \<and> x < p_adapt k * 0.7 \<longrightarrow>
        staircase x k = k\<lparr>accommodation_incentive := accommodation_incentive k + 1\<rparr>)
   \<and> (\<not> community_resistance k < 3 \<and> \<not> x < p_adapt k * 0.7 \<and> x < p_adapt k \<longrightarrow>
        staircase x k = k\<lparr>retreat_incentive := retreat_incentive k + 1\<rparr>)
   \<and> (\<not> community_resistance k < 3 \<and> \<not> x < p_adapt k * 0.7 \<and> \<not> x < p_adapt k \<longrightarrow>
        staircase x k = k)
   \<and> community_resistance k \<le> community_resistance (staircase x k)
   \<and> accommodation_incentive k \<le> accommodation_incentive (staircase x k)
   \<and> retreat_incentive k \<le> retreat_incentive (staircase x k)
   \<and> community_resistance (staircase x k) + accommodation_incentive (staircase x k)
        + retreat_incentive (staircase x k)
      \<le> community_resistance k + accommodation_incentive k + retreat_incentive k + 1
   \<and> p_adapt (staircase x (set_p_adapt m)) = p_adapt (set_p_adapt m)
   \<and> (reachable k \<and> \<not> community_resistance k < 3 \<longrightarrow> community_resistance k = 3)"
proof -
  have "reachable k \<and> \<not> community_resistance k < 3 \<longrightarrow> community_resistance k = 3"
    using reachable_model_ok [of k] by (auto simp: model_ok_def incentives_ok_def)
  moreover have "p_adapt (staircase x (set_p_adapt m)) = p_adapt (set_p_adapt m)"
    using staircase_static by blast
  moreover have "community_resistance k \<le> community_resistance (staircase x k)
      \<and> accommodation_incentive k \<le> accommodation_incentive (staircase x k)
      \<and> retreat_incentive k \<le> retreat_incentive (staircase x k)
      \<and> community_resistance (staircase x k) + accommodation_incentive (staircase x k)
          + retreat_incentive (staircase x k)
        \<le> community_resistance k + accommodation_incentive k + retreat_incentive k + 1"
    by (simp add: staircase_def)
  ultimately show ?thesis
    by (simp add: community_adaptation_def staircase_def)
qed

theorem staircase_outcomes_witness:
  "0 < num_agents demo_model \<and> community_resistance (set_p_adapt demo_model) < 3
   \<and> p_adapt (set_p_adapt demo_model) = 1 / 10
   \<and> (1 / 100 :: real) < p_adapt (set_p_adapt demo_model) * 0.6
   \<and> community_adaptation (1 / 100) 0.99 0.99 demo_model
       = demo_model\<lparr>p_adapt := 1 / 10, community_resistance := 1\<rparr>"
proof -
  have a: "0 < num_agents demo_model \<and> community_resistance (set_p_adapt demo_model) < 3
      \<and> p_adapt (set_p_adapt demo_model) = 1 / 10
      \<and> (1 / 100 :: real) < p_adapt (set_p_adapt demo_model) * 0.6"
    by (simp add: set_p_adapt_def total_damage_def total_inundation_def demo_model_def
        demo_agent_def Let_def)
  note t = staircase_outcomes [of demo_model "1 / 100" "0.99" "0.99" "set_p_adapt demo_model"]
  have "community_adaptation (1 / 100) 0.99 0.99 demo_model
      = decrements 0.99 0.99 (staircase (1 / 100) (set_p_adapt demo_model))"
    using t a by blast
  moreover have "staircase (1 / 100) (set_p_adapt demo_model)
      = (set_p_adapt demo_model)
          \<lparr>community_resistance := community_resistance (set_p_adapt demo_model) + 1\<rparr>"
    using t a by blast
  ultimately have "community_adaptation (1 / 100) 0.99 0.99 demo_model
      = demo_model\<lparr>p_adapt := 1 / 10, community_resistance := 1\<rparr>"
    by (simp add: decrements_def set_p_adapt_def total_damage_def total_inundation_def
        demo_model_def demo_agent_def Let_def)
  then show ?thesis using a by blast
qed

text \<open>
  C4. In a reachable model with a non-empty roster the probability computed by community
  adaptation is at least 0.1. Hence, while community resistance is below 3, the branch
  of the staircase that increments the accommodation incentive is never taken: the
  incentive does not grow in such a year, stays at least 1, and in fact is 1 in every
  reachable model whose community resistance is below 3.
\<close>

theorem accommodation_incentive_frozen:
  assumes "reachable m"
  shows "(schedule m \<noteq> [] \<longrightarrow> 1 / 10 \<le> p_adapt (community_adaptation x r1 r2 m))
     \<and> (schedule m \<noteq> [] \<and> community_resistance m < 3 \<longrightarrow>
          accommodation_incentive (staircase x (set_p_adapt m)) = accommodation_incentive m)
     \<and> (community_resistance m < 3 \<longrightarrow>
          accommodation_incentive (community_adaptation x r1 r2 m) \<le> accommodation_incentive m
          \<and> 1 \<le> accommodation_incentive (community_adaptation x r1 r2 m))
     \<and> (community_resistance m < 3 \<longrightarrow> accommodation_incentive m = 1)
     \<and> (\<forall>d m'. step d m = Inr m' \<longrightarrow>
          (schedule m \<noteq> [] \<longrightarrow> 1 / 10 \<le> p_adapt m')
          \<and> (community_resistance m < 3 \<longrightarrow>
               accommodation_incentive m' \<le> accommodation_incentive m
               \<and> 1 \<le> accommodation_incentive m'))"
proof -
  have ok: "model_ok m" using assms by (rule reachable_model_ok)
  have dmg: "\<forall>a\<in>set (schedule m). 0 \<le> flood_damage (agents m a)"
    using ok by (auto simp: model_ok_def roster_ok_def agents_ok_def household_ok_def)
  have n: "schedule m \<noteq> [] \<longrightarrow> 0 < num_agents m"
    using ok by (simp add: model_ok_def roster_ok_def)
  have ai: "1 \<le> accommodation_incentive m" using ok by (simp add: model_ok_def incentives_ok_def)
  have 1: "schedule m \<noteq> [] \<longrightarrow> 1 / 10 \<le> p_adapt (community_adaptation x r1 r2 m)"
    using community_adaptation_p_adapt [OF _ dmg] n by blast
  have 2: "schedule m \<noteq> [] \<and> community_resistance m < 3 \<longrightarrow>
      accommodation_incentive (staircase x (set_p_adapt m)) = accommodation_incentive m"
    using staircase_unreachable_branch [OF _ dmg] n by blast
  have 3: "community_resistance m < 3 \<longrightarrow>
      accommodation_incentive (community_adaptation x r1 r2 m) \<le> accommodation_incentive m
      \<and> 1 \<le> accommodation_incentive (community_adaptation x r1 r2 m)"
    using community_adaptation_accommodation [OF dmg _ ai] by blast
  have 4: "(schedule m \<noteq> [] \<longrightarrow> 1 / 10 \<le> p_adapt m')
      \<and> (community_resistance m < 3 \<longrightarrow>
           accommodation_incentive m' \<le> accommodation_incentive m
           \<and> 1 \<le> accommodation_incentive m')"
    if s: "step d m = Inr m'" for d m'
  proof -
    let ?m0 = "(calculate_inundation m)\<lparr>storm_surge := max 0 (- ln (2 * aep d) / 1.164)\<rparr>"
    have d0: "\<forall>a\<in>set (schedule ?m0). 0 \<le> flood_damage (agents ?m0 a)"
      using dmg by (simp add: calculate_inundation_def)
    have f: "num_agents ?m0 = num_agents m" "community_resistance ?m0 = community_resistance m"
      "accommodation_incentive ?m0 = accommodation_incentive m"
      by (simp_all add: calculate_inundation_def)
    have e: "p_adapt m' = p_adapt (before_agents d m)"
      "accommodation_incentive m' = accommodation_incentive (before_agents d m)"
      using step_p_adapt [OF s] step_community [OF s] by simp_all
    have "schedule m \<noteq> [] \<longrightarrow> 1 / 10 \<le> p_adapt (before_agents d m)"
      unfolding before_agents_def
      using community_adaptation_p_adapt [OF _ d0] n f(1) by simp
    moreover have "community_resistance m < 3 \<longrightarrow>
        accommodation_incentive (before_agents d m) \<le> accommodation_incentive m
        \<and> 1 \<le> accommodation_incentive (before_agents d m)"
      unfolding before_agents_def
      using community_adaptation_accommodation [OF d0] ai f(2,3) by simp
    ultimately show ?thesis by (simp add: e)
  qed
  show ?thesis using 1 2 3 4 reachable_accommodation_floor [OF assms] by blast
qed

theorem accommodation_incentive_frozen_witness:
  "reachable demo_model \<and> schedule demo_model \<noteq> [] \<and> community_resistance demo_model < 3
   \<and> step (quiet_year 0.99) demo_model = Inr demo_stayed
   \<and> 1 / 10 \<le> p_adapt demo_stayed
   \<and> accommodation_incentive demo_stayed \<le> accommodation_incentive demo_model
   \<and> 1 \<le> accommodation_incentive demo_stayed \<and> accommodation_incentive demo_model = 1"
proof -
  have a: "schedule demo_model \<noteq> [] \<and> community_resistance demo_model < 3"
    by (simp add: demo_model_def)
  have "1 / 10 \<le> p_adapt demo_stayed
      \<and> accommodation_incentive demo_stayed \<le> accommodation_incentive demo_model
      \<and> 1 \<le> accommodation_incentive demo_stayed \<and> accommodation_incentive demo_model = 1"
    using accommodation_incentive_frozen [OF reachable_demo_model] demo_stayed_step a by blast
  then show ?thesis using a reachable_demo_model demo_stayed_step by blast
qed

text \<open>
  C8. In every reachable model community resistance is between 0 and 3 and both
  incentives are at least 1; along a run community resistance never decreases; and each
  random decrement is floored at 1.
\<close>

theorem community_bounds:
  assumes "reachable m"
  shows "0 \<le> community_resistance m \<and> community_resistance m \<le> 3
     \<and> 1 \<le> accommodation_incentive m \<and> 1 \<le> retreat_incentive m
     \<and> (\<forall>ds m'. run ds m = Inr m' \<longrightarrow> community_resistance m \<le> community_resistance m')
     \<and> accommodation_incentive (decrements r1 r2 k)
         = (if r1 < 0.1 then max 1 (accommodation_incentive k - 1)
            else accommodation_incentive k)
     \<and> retreat_incentive (decrements r1 r2 k)
         = (if r2 < 0.1 then max 1 (retreat_incentive k - 1) else retreat_incentive k)"
proof -
  have "incentives_ok m" using reachable_model_ok [OF assms] by (simp add: model_ok_def)
  moreover have "community_resistance m \<le> community_resistance m'"
    if r: "run ds m = Inr m'" for ds m'
  proof (rule run_rel [where R = "\<lambda>k k'. community_resistance k \<le> community_resistance k'",
        OF _ _ _ r assms])
    fix d k k'
    assume "reachable k" "step d k = Inr k'"
    then show "community_resistance k \<le> community_resistance k'" using step_shrinks by blast
  qed simp_all
  moreover have "accommodation_incentive (decrements r1 r2 k)
      = (if r1 < 0.1 then max 1 (accommodation_incentive k - 1) else accommodation_incentive k)"
    by (simp add: decrements_def Let_def)
  moreover have "retreat_incentive (decrements r1 r2 k)
      = (if r2 < 0.1 then max 1 (retreat_incentive k - 1) else retreat_incentive k)"
    by (simp add: decrements_def Let_def)
  ultimately show ?thesis unfolding incentives_ok_def by blast
qed

theorem community_bounds_witness:
  "reachable demo_model \<and> run [quiet_year 0.99] demo_model = Inr demo_stayed
   \<and> community_resistance demo_model = 0 \<and> accommodation_incentive demo_model = 1
   \<and> retreat_incentive demo_model = 1
   \<and> community_resistance demo_model \<le> community_resistance demo_stayed
   \<and> accommodation_incentive (decrements 0 0 (demo_model\<lparr>accommodation_incentive := 3\<rparr>)) = 2
   \<and> retreat_incentive (decrements 0 0 demo_model) = 1"
proof -
  have r: "run [quiet_year 0.99] demo_model = Inr demo_stayed"
    using demo_stayed_step by (rule run_single)
  note t = community_bounds [OF reachable_demo_model]
  have "community_resistance demo_model \<le> community_resistance demo_stayed"
    using t r by blast
  moreover have "accommodation_incentive
      (decrements 0 0 (demo_model\<lparr>accommodation_incentive := 3\<rparr>)) = 2"
    using t [of 0 0 "demo_model\<lparr>accommodation_incentive := 3\<rparr>"] by simp
  moreover have "retreat_incentive (decrements 0 0 demo_model) = 1"
    using t [of 0 0 demo_model] by (simp add: demo_model_def)
  moreover have "community_resistance demo_model = 0 \<and> accommodation_incentive demo_model = 1
      \<and> retreat_incentive demo_model = 1"
    by (simp add: demo_model_def)
  ultimately show ?thesis using r reachable_demo_model by blast
qed

section \<open>Households along a run\<close>

text \<open>
  C6. For every agent ever created, at every observation point, resistance and
  accommodation are one of 0, 1, 1.5 and 2, and along a run neither ever decreases. A
  decision leaves a level as it is or moves it one step on the ladder 0 to 1, 1 to 1.5,
  anything else to 2, and it does not escalate a resistance that has reached 2 (for a
  draw that is not negative).
\<close>

theorem adaptation_levels:
  assumes "reachable m" "a \<in> set (agent_list m)"
  shows "(resistance (agents m a) = 0 \<or> resistance (agents m a) = 1
        \<or> resistance (agents m a) = 1.5 \<or> resistance (agents m a) = 2)
     \<and> (accommodation (agents m a) = 0 \<or> accommodation (agents m a) = 1
        \<or> accommodation (agents m a) = 1.5 \<or> accommodation (agents m a) = 2)
     \<and> (\<forall>ds m'. run ds m = Inr m' \<longrightarrow>
          resistance (agents m a) \<le> resistance (agents m' a)
          \<and> accommodation (agents m a) \<le> accommodation (agents m' a))
     \<and> (\<forall>s x h h'. make_decision s x h = Inr h' \<longrightarrow>
          (resistance h' = resistance h \<or> resistance h' = escalate (resistance h))
          \<and> (accommodation h' = accommodation h
              \<or> accommodation h' = escalate (accommodation h))
          \<and> (2 \<le> resistance h \<and> 0 \<le> x \<longrightarrow> resistance h' = resistance h))
     \<and> escalate 0 = 1 \<and> escalate 1 = 1.5 \<and> (\<forall>v. v \<noteq> 0 \<and> v \<noteq> 1 \<longrightarrow> escalate v = 2)"
proof -
  have ok: "household_ok (agents m a)"
    using reachable_model_ok [OF assms(1)] assms(2) by (simp add: model_ok_def agents_ok_def)
  have mono: "resistance (agents m a) \<le> resistance (agents m' a)
      \<and> accommodation (agents m a) \<le> accommodation (agents m' a)"
    if r: "run ds m = Inr m'" for ds m'
  proof -
    have "agent_step (agents m a) (agents m' a)"
    proof (rule run_rel [where R = "\<lambda>k k'. agent_step (agents k a) (agents k' a)",
          OF _ _ _ r assms(1)])
      fix d k k'
      assume "reachable k" "step d k = Inr k'"
      then show "agent_step (agents k a) (agents k' a)" using step_shrinks by blast
    qed (blast intro: agent_step_refl agent_step_trans)+
    then show ?thesis using ok by (simp add: agent_step_def)
  qed
  show ?thesis
    using ok mono make_decision_ladder escalate_steps
    unfolding household_ok_def by blast
qed

theorem adaptation_levels_witness:
  "reachable demo_model \<and> 0 \<in> set (agent_list demo_model)
   \<and> run [quiet_year 0.1] demo_model = Inr demo_resisted
   \<and> resistance (agents demo_model 0) = 0 \<and> resistance (agents demo_resisted 0) = 1
   \<and> resistance (agents demo_model 0) \<le> resistance (agents demo_resisted 0)
   \<and> accommodation (agents demo_model 0) \<le> accommodation (agents demo_resisted 0)
   \<and> escalate 0 = 1 \<and> escalate 1 = 15 / 10 \<and> escalate (15 / 10) = 2 \<and> escalate 2 = 2"
proof -
  have a: "0 \<in> set (agent_list demo_model)" by (simp add: demo_model_def)
  have r: "run [quiet_year 0.1] demo_model = Inr demo_resisted"
    using demo_resisted_step by (rule run_single)
  note t = adaptation_levels [OF reachable_demo_model a]
  have "resistance (agents demo_model 0) \<le> resistance (agents demo_resisted 0)
      \<and> accommodation (agents demo_model 0) \<le> accommodation (agents demo_resisted 0)"
    using t r by blast
  moreover have "(\<forall>v::real. v \<noteq> 0 \<and> v \<noteq> 1 \<longrightarrow> escalate v = 2) \<and> escalate 0 = 1
      \<and> escalate 1 = 15 / 10"
    using t by simp
  then have "escalate 0 = 1 \<and> escalate 1 = 15 / 10 \<and> escalate (15 / 10) = 2 \<and> escalate 2 = 2"
    by simp
  moreover have "resistance (agents demo_model 0) = 0 \<and> resistance (agents demo_resisted 0) = 1"
    by (simp add: demo_model_def demo_agent_def demo_resisted_def)
  ultimately show ?thesis using a r reachable_demo_model by blast
qed

text \<open>
  C7. An agent that has retreated at an observation point is neither in the list of the
  scheduler nor on the grid, and after any further years its state is unchanged (it is
  never stepped again), it is still retreated, and it is still absent from both.
\<close>

theorem retreat_is_final:
  assumes "reachable m" "retreated (agents m a)"
  shows "a \<notin> set (schedule m) \<and> (\<forall>p. grid m p \<noteq> Some a)
     \<and> (\<forall>ds m'. run ds m = Inr m' \<longrightarrow>
          agents m' a = agents m a \<and> retreated (agents m' a)
          \<and> a \<notin> set (schedule m') \<and> (\<forall>p. grid m' p \<noteq> Some a))"
proof -
  have out: "a \<notin> set (schedule k) \<and> (\<forall>p. grid k p \<noteq> Some a)"
    if "reachable k" "retreated (agents k a)" for k
  proof -
    have r: "roster_ok k" using reachable_model_ok [OF that(1)] by (simp add: model_ok_def)
    then have "a \<notin> set (schedule k)" using that(2) by (auto simp: roster_ok_def)
    moreover have "grid_ok k" using r by (simp add: roster_ok_def)
    ultimately show ?thesis unfolding grid_ok_def by blast
  qed
  have later: "agents m' a = agents m a \<and> retreated (agents m' a)
      \<and> a \<notin> set (schedule m') \<and> (\<forall>p. grid m' p \<noteq> Some a)"
    if r: "run ds m = Inr m'" for ds m'
  proof -
    have "a \<notin> set (schedule m) \<longrightarrow> agents m' a = agents m a \<and> a \<notin> set (schedule m')"
    proof (rule run_rel [where R = "\<lambda>k k'. a \<notin> set (schedule k) \<longrightarrow>
          agents k' a = agents k a \<and> a \<notin> set (schedule k')", OF _ _ _ r assms(1)])
      fix d k k'
      assume "reachable k" "step d k = Inr k'"
      then show "a \<notin> set (schedule k) \<longrightarrow> agents k' a = agents k a \<and> a \<notin> set (schedule k')"
        using step_shrinks [of k d k'] by blast
    qed simp_all
    then have e: "agents m' a = agents m a" using out [OF assms] by blast
    have "reachable m'" using r assms(1) by (rule run_reachable)
    then show ?thesis using out [of m'] e assms(2) by simp
  qed
  show ?thesis using out [OF assms] later by blast
qed

theorem retreat_is_final_witness:
  "reachable demo_retreated \<and> retreated (agents demo_retreated 0)
   \<and> \<not> retreated (agents demo_model 0) \<and> 0 \<in> set (schedule demo_model)
   \<and> grid demo_model (0, 0) = Some 0
   \<and> 0 \<notin> set (schedule demo_retreated) \<and> grid demo_retreated (0, 0) \<noteq> Some 0"
proof -
  have r: "retreated (agents demo_retreated 0)"
    by (simp add: demo_retreated_def demo_agent_after_def)
  have "0 \<notin> set (schedule demo_retreated) \<and> grid demo_retreated (0, 0) \<noteq> Some 0"
    using retreat_is_final [OF reachable_demo_retreated r] by blast
  moreover have "\<not> retreated (agents demo_model 0) \<and> 0 \<in> set (schedule demo_model)
      \<and> grid demo_model (0, 0) = Some 0"
    by (simp add: demo_model_def demo_agent_def)
  ultimately show ?thesis using r reachable_demo_retreated by blast
qed

text \<open>
  C9. From a reachable model a year never raises a division by zero, and returns a
  model whenever the surge draw is positive. The raw weights, and with them the
  division by attachment, never fail; a decision on a sane household never fails; and
  when the raw weights sum to zero the decision stops there: no normalisation, no
  escalation and no retreat.
\<close>

theorem decision_never_divides_by_zero:
  assumes "reachable m"
  shows "step d m \<noteq> Inl ZeroDivisionError
     \<and> (0 < aep d \<longrightarrow> (\<exists>m'. step d m = Inr m'))
     \<and> (\<forall>s h. \<exists>h1. raw_weights s h = Inr h1)
     \<and> (\<forall>s x h. household_ok h \<and> 0 \<le> accommodation_incentive s
            \<and> 0 \<le> retreat_incentive s \<longrightarrow> (\<exists>h'. make_decision s x h = Inr h'))
     \<and> (\<forall>s x h h1. raw_weights s h = Inr h1 \<and> weight_sum h1 = 0 \<longrightarrow>
            make_decision s x h = Inr h1 \<and> resistance h1 = resistance h
            \<and> accommodation h1 = accommodation h \<and> retreated h1 = retreated h)"
proof -
  have ok: "model_ok m" using assms by (rule reachable_model_ok)
  have t: "0 < aep d \<longrightarrow> (\<exists>m'. step d m = Inr m')" using step_total [OF ok] by blast
  have 1: "step d m \<noteq> Inl ZeroDivisionError"
  proof (cases "0 < aep d")
    case True
    then show ?thesis using t by auto
  next
    case False
    then have "step d m = Inl ValueError"
      by (simp add: step_def calculate_storm_surge_def)
    then show ?thesis by simp
  qed
  have 2: "\<exists>h1. raw_weights s h = Inr h1" for s h
    by (simp add: raw_weights_weighted)
  have 3: "\<exists>h'. make_decision s x h = Inr h'"
    if "household_ok h \<and> 0 \<le> accommodation_incentive s \<and> 0 \<le> retreat_incentive s" for s x h
    using make_decision_decided [of h s x] that by blast
  have 4: "make_decision s x h = Inr h1 \<and> resistance h1 = resistance h
      \<and> accommodation h1 = accommodation h \<and> retreated h1 = retreated h"
    if "raw_weights s h = Inr h1 \<and> weight_sum h1 = 0" for s x h h1
  proof -
    have h1: "h1 = weighted s h" using that by (simp add: raw_weights_weighted)
    then have "make_decision s x h = Inr h1"
      using that by (simp add: make_decision_def raw_weights_weighted)
    then show ?thesis using weighted_kept [of h s] by (simp add: h1 decided_kept_def)
  qed
  show ?thesis using 1 t 2 3 4 by blast
qed

theorem decision_never_divides_by_zero_witness:
  "reachable demo_model \<and> 0 < aep (quiet_year 0.99)
   \<and> step (quiet_year 0.99) demo_model = Inr demo_stayed
   \<and> step (quiet_year 0.99) demo_model \<noteq> Inl ZeroDivisionError
   \<and> raw_weights demo_model (demo_observed\<lparr>adaptive_capacity := 0\<rparr>)
       = Inr (demo_observed\<lparr>adaptive_capacity := 0, p_action := 73 / 100,
               p_resist := 0, p_accommodate := 0, p_retreat := 0\<rparr>)
   \<and> make_decision demo_model 0 (demo_observed\<lparr>adaptive_capacity := 0\<rparr>)
       = Inr (demo_observed\<lparr>adaptive_capacity := 0, p_action := 73 / 100,
               p_resist := 0, p_accommodate := 0, p_retreat := 0\<rparr>)"
proof -
  let ?h = "demo_observed\<lparr>adaptive_capacity := 0\<rparr>"
  let ?h1 = "demo_observed\<lparr>adaptive_capacity := 0, p_action := 73 / 100,
               p_resist := 0, p_accommodate := 0, p_retreat := 0\<rparr>"
  note t = decision_never_divides_by_zero [OF reachable_demo_model, of "quiet_year 0.99"]
  have r: "raw_weights demo_model ?h = Inr ?h1"
    by (simp add: demo_observed_def demo_model_def demo_agent_def raw_weights_def
        set_p_action_def set_p_resist_def set_p_accommodate_def set_p_retreat_def Let_def)
  have z: "weight_sum ?h1 = 0" by (simp add: weight_sum_def)
  have "make_decision demo_model 0 ?h = Inr ?h1" using t r z by blast
  moreover have "step (quiet_year 0.99) demo_model \<noteq> Inl ZeroDivisionError" using t by blast
  moreover have "0 < aep (quiet_year 0.99)" by (simp add: quiet_year_def)
  ultimately show ?thesis using r reachable_demo_model demo_stayed_step by blast
qed

section \<open>The social network\<close>

text \<open>
  C10. After the construction of the network on a freshly constructed model, in spatial
  mode every agent \<open>b\<close> within the radius of a different agent \<open>a\<close> stands exactly twice
  in the connections of \<open>a\<close>, and every other agent not at all; in aspatial mode a
  connected agent stands exactly once. In spatial mode the list of connections is twice
  as long as the list without its duplicates, and the attachment computed from it is
  the one computed without the duplicates, whichever agents have retreated.
\<close>

theorem network_connection_counts:
  assumes "init_model w h n slr mode parameter t0 locations caps = Inr m"
    "valid_sample w h n locations" "a < n" "b < n"
  shows "(mode \<noteq> ''aspatial'' \<longrightarrow>
        count_list (connections (agents (set_init_connections draw m) a)) b
          = (if a \<noteq> b
                \<and> \<bar>real_of_int (pos_x (agents m a) - pos_x (agents m b))\<bar> < parameter
                \<and> \<bar>real_of_int (pos_y (agents m a) - pos_y (agents m b))\<bar> < parameter
             then 2 else 0)
        \<and> (\<forall>st. attachment_of st (connections (agents (set_init_connections draw m) a))
              = attachment_of st
                  (remdups (connections (agents (set_init_connections draw m) a))))
        \<and> length (connections (agents (set_init_connections draw m) a))
            = 2 * length (remdups (connections (agents (set_init_connections draw m) a))))
     \<and> (mode = ''aspatial'' \<longrightarrow>
        count_list (connections (agents (set_init_connections draw m) a)) b
          = (if (a < b \<and> draw a b < parameter) \<or> (b < a \<and> draw b a < parameter)
             then 1 else 0))"
proof -
  let ?cs = "connections (agents (set_init_connections draw m) a)"
  note i = init_model_built [OF assms(1,2)]
  have sch: "schedule m = [0..<n]" and fr: "\<forall>c<n. fresh c (agents m c)"
    using i by (simp_all add: built_def)
  have d: "distinct (schedule m)" by (simp add: sch)
  have ua: "unique_id (agents m a) = a" "connections (agents m a) = []"
    and ub: "unique_id (agents m b) = b"
    using fr assms(3,4) by (simp_all add: fresh_def)
  have mp: "network_mode m = mode" "network_parameter m = parameter" using i by simp_all
  have cnt: "count_list ?cs c
      = (if c < n
         then (if mode = ''aspatial''
               then (if a < unique_id (agents m c) \<and> draw a c < parameter then 1 else 0)
                    + (if unique_id (agents m c) < a \<and> draw c a < parameter then 1 else 0)
               else (if within_radius parameter (agents m a) (agents m c) then 2 else 0))
         else 0)" for c
    using set_init_connections_count [OF d, of draw a c] assms(3)
    by (simp add: sch ua mp)
  have spatial: "mode \<noteq> ''aspatial'' \<longrightarrow>
      count_list ?cs b
        = (if a \<noteq> b
              \<and> \<bar>real_of_int (pos_x (agents m a) - pos_x (agents m b))\<bar> < parameter
              \<and> \<bar>real_of_int (pos_y (agents m a) - pos_y (agents m b))\<bar> < parameter
           then 2 else 0)"
    using cnt [of b] assms(4) by (auto simp: within_radius_def ua ub)
  have aspatial: "mode = ''aspatial'' \<longrightarrow>
      count_list ?cs b
        = (if (a < b \<and> draw a b < parameter) \<or> (b < a \<and> draw b a < parameter)
           then 1 else 0)"
    using cnt [of b] assms(4) by (auto simp: ub)
  have dbl: "mode \<noteq> ''aspatial'' \<longrightarrow>
      (\<forall>st. attachment_of st ?cs = attachment_of st (remdups ?cs))
      \<and> length ?cs = 2 * length (remdups ?cs)"
  proof
    assume s: "mode \<noteq> ''aspatial''"
    have "\<forall>c. count_list ?cs c = 2 * count_list (remdups ?cs) c"
    proof
      fix c
      have "count_list ?cs c = 0 \<or> count_list ?cs c = 2" using cnt [of c] s by simp
      moreover have "c \<in> set ?cs \<longleftrightarrow> count_list ?cs c \<noteq> 0"
        by (simp add: count_list_0_iff)
      ultimately show "count_list ?cs c = 2 * count_list (remdups ?cs) c"
        by (auto simp: count_list_remdups)
    qed
    then show "(\<forall>st. attachment_of st ?cs = attachment_of st (remdups ?cs))
        \<and> length ?cs = 2 * length (remdups ?cs)"
      using doubled_attachment by blast
  qed
  show ?thesis using spatial aspatial dbl by blast
qed

theorem network_connection_counts_witness:
  "valid_sample 2 1 2 [0, 1]
   \<and> init_model 2 1 2 0 ''spatial'' 5 0 [0, 1] (\<lambda>i. 1) = Inr (demo_pair ''spatial'' 5)
   \<and> init_model 2 1 2 0 ''aspatial'' (1 / 5) 0 [0, 1] (\<lambda>i. 1)
       = Inr (demo_pair ''aspatial'' (1 / 5))
   \<and> count_list (connections
        (agents (set_init_connections (\<lambda>i j. 0) (demo_pair ''spatial'' 5)) 0)) 1 = 2
   \<and> connections (agents (set_init_connections (\<lambda>i j. 0) (demo_pair ''spatial'' 5)) 0)
       = [1, 1]
   \<and> connections (agents (set_init_connections (\<lambda>i j. 0) (demo_pair ''spatial'' 5)) 1)
       = [0, 0]
   \<and> count_list (connections
        (agents (set_init_connections (\<lambda>i j. 0) (demo_pair ''aspatial'' (1 / 5))) 0)) 1 = 1
   \<and> connections (agents (set_init_connections (\<lambda>i j. 0) (demo_pair ''aspatial'' (1 / 5))) 0)
       = [1]"
proof -
  note s = network_connection_counts [OF demo_pair_init [of "''spatial''" 5] demo_pair_sample,
      where a = 0 and b = 1 and draw = "\<lambda>i j. 0"]
  note t = network_connection_counts
    [OF demo_pair_init [of "''aspatial''" "1 / 5"] demo_pair_sample,
      where a = 0 and b = 1 and draw = "\<lambda>i j. 0"]
  have "count_list (connections
        (agents (set_init_connections (\<lambda>i j. 0) (demo_pair ''spatial'' 5)) 0)) 1 = 2"
    using s by (simp add: demo_pair_def demo_pair_agent_def)
  moreover have "count_list (connections
        (agents (set_init_connections (\<lambda>i j. 0) (demo_pair ''aspatial'' (1 / 5))) 0)) 1 = 1"
    using t by simp
  moreover have "connections (agents (set_init_connections (\<lambda>i j. 0) (demo_pair ''spatial'' 5)) 0)
       = [1, 1]
     \<and> connections (agents (set_init_connections (\<lambda>i j. 0) (demo_pair ''spatial'' 5)) 1)
       = [0, 0]
     \<and> connections (agents (set_init_connections (\<lambda>i j. 0) (demo_pair ''aspatial'' (1 / 5))) 0)
       = [1]"
    by (simp add: set_init_connections_def spatial_inner_def aspatial_inner_def
        within_radius_def connect_def Let_def demo_pair_def demo_pair_agent_def)
  ultimately show ?thesis using demo_pair_init demo_pair_sample by blast
qed

end
